theory Spec2Isabelle
  imports Main
begin

section \<open>Values, outcomes and closures\<close>

text \<open>
  The combinator of \<^verbatim>\<open>src/inputSensitiveThrottle.ts\<close> is twelve lines of higher-order
  code over three caller-supplied functions. The closures it builds are kept as data
  and the objects they own live in an explicit store, so that the identity of a throttle
  instance (its address) and of a registry (its index) can be spoken about.

  JavaScript values: an argument list is a \<open>val list\<close>; the rest parameter \<^verbatim>\<open>...args\<close>
  binds the argument list as ONE array value, \<open>VArr args\<close>.
\<close>

datatype val = VUndefined | VBool bool | VNum int | VStr string | VArr "val list"

text \<open>What a call produces: \<open>Inl e\<close> when it throws \<open>e\<close>, \<open>Inr v\<close> when it returns \<open>v\<close>.\<close>

type_synonym outcome = "val + val"

text \<open>The closure \<^verbatim>\<open>() => func(args)\<close> of line 75; it captures the array \<^verbatim>\<open>args\<close>.\<close>

datatype thunk = Thunk "val list"

section \<open>The collaborators\<close>

text \<open>
  Modelled from the spec: the throttler. It is a parameter of the combinator and no
  implementation is part of the repository. Following section 3 of the specification, a
  throttled operation carries its own timing state \<open>'t\<close> and gates the invocation of the
  operation it wraps. The policy is arbitrary: \<open>t_gate\<close> decides from the instance's
  state and the clock whether this call invokes the operation; \<open>t_admit\<close> is the
  bookkeeping written before the operation runs, \<open>t_settle\<close> the bookkeeping after it
  returned a value, \<open>t_reject\<close> the bookkeeping of a suppressed call, and \<open>t_idle\<close> the
  value a suppressed call returns. Only gates that decide within the call are covered;
  invocations deferred to a timer are outside this model.
\<close>

record 't throttle_policy =
  t_fresh :: "'t"
  t_gate :: "'t \<Rightarrow> nat \<Rightarrow> bool"
  t_admit :: "'t \<Rightarrow> nat \<Rightarrow> 't"
  t_settle :: "'t \<Rightarrow> val \<Rightarrow> 't"
  t_reject :: "'t \<Rightarrow> nat \<Rightarrow> 't"
  t_idle :: "'t \<Rightarrow> val"

text \<open>
  Modelled from the spec: the memoizer. It is a parameter of the combinator and no
  implementation is part of the repository. Section 3 of the specification describes it
  as a cache that returns the stored result for an argument list equal to one seen before
  and computes and stores a result for a never-seen one, equality being its own policy.
  The policy is a function to keys: two argument lists are equal for the memoizer when
  it maps them to the same key. Entries are never evicted: the specification names
  eviction a non-goal and leaves it to the memoizer.
\<close>

type_synonym 'k memo_policy = "val list \<Rightarrow> 'k"

text \<open>
  The three arguments of \<^verbatim>\<open>makeInputSensitiveThrottle\<close>. The target \<open>func\<close> receives an
  argument list, may change its own world \<open>'w\<close>, and returns or throws; \<open>memo_key\<close> is
  the policy of \<^verbatim>\<open>memoizer\<close>.
\<close>

record ('k, 't, 'w) config =
  func :: "val list \<Rightarrow> 'w \<Rightarrow> outcome \<times> 'w"
  memo_key :: "'k memo_policy"
  throttler :: "'t throttle_policy"

section \<open>The store\<close>

text \<open>A throttle instance: the operation it wraps and its private timing state.\<close>

record 't throttled =
  wrapped_op :: thunk
  tstate :: "'t"

text \<open>
  What happens, in order. The trace is an observer only: no definition reads it.
  \<open>MemoizerCalled w\<close>: \<^verbatim>\<open>memoizer(makeThrottleFnForInput)\<close> returned registry \<open>w\<close>.
  \<open>Resolving w args\<close>: the memoized function of registry \<open>w\<close> was entered with \<open>args\<close>.
  \<open>ThrottlerCalled w args r\<close>: \<^verbatim>\<open>makeThrottleFnForInput\<close> of wrapper \<open>w\<close> ran
  \<^verbatim>\<open>throttler(() => func(args))\<close>, which returned the instance at address \<open>r\<close>.
  \<open>Invoking r\<close>: the throttled operation at \<open>r\<close> was called.
  \<open>TargetCalled xs\<close>: \<^verbatim>\<open>func\<close> was called with the argument list \<open>xs\<close>.
\<close>

datatype event =
    MemoizerCalled nat
  | Resolving nat "val list"
  | ThrottlerCalled nat "val list" nat
  | Invoking nat
  | TargetCalled "val list"

text \<open>
  \<open>caches\<close>: one registry (key to address of a throttle instance) for each application
  of the memoizer; \<open>heap\<close>: the throttle instances, an address is an index;
  \<open>world\<close>: whatever the target reads and writes.
\<close>

record ('k, 't, 'w) store =
  caches :: "('k \<rightharpoonup> nat) list"
  heap :: "'t throttled list"
  world :: "'w"
  trace :: "event list"

text \<open>
  An address is only ever produced by the allocation in \<open>throttler_apply\<close> and the
  index of a registry by \<open>memoizer_apply\<close>, both defined below, as a reference to a
  closure in the source can only stem from its creation. The stores a program reaches never read
  \<open>heap\<close> or \<open>caches\<close> out of range (\<open>sound\<close> and lemma \<open>sound_reach\<close>).
\<close>

definition init :: "'w \<Rightarrow> ('k, 't, 'w) store" where
  "init w0 = \<lparr>caches = [], heap = [], world = w0, trace = []\<rparr>"

section \<open>The combinator\<close>

text \<open>Calling the closure \<^verbatim>\<open>() => func(args)\<close>: the target receives the array as its one argument.\<close>

definition call_thunk ::
  "('k, 't, 'w) config \<Rightarrow> thunk \<Rightarrow> ('k, 't, 'w) store \<Rightarrow> outcome \<times> ('k, 't, 'w) store" where
  "call_thunk c th s =
     (case th of Thunk args \<Rightarrow>
        (case func c [VArr args] (world s) of (out, w') \<Rightarrow>
           (out, s\<lparr>world := w', trace := trace s @ [TargetCalled [VArr args]]\<rparr>)))"

text \<open>
  Modelled from the spec: what \<^verbatim>\<open>throttler(op)\<close> does. It returns a new throttled
  operation: an instance with fresh timing state, at the next free address.
\<close>

definition throttler_apply ::
  "('k, 't, 'w) config \<Rightarrow> thunk \<Rightarrow> ('k, 't, 'w) store \<Rightarrow> nat \<times> ('k, 't, 'w) store" where
  "throttler_apply c opn s =
     (length (heap s),
      s\<lparr>heap := heap s @ [\<lparr>wrapped_op = opn, tstate = t_fresh (throttler c)\<rparr>]\<rparr>)"

text \<open>
  Modelled from the spec: what calling a throttled operation does, here the one at
  address \<open>r\<close> at time \<open>now\<close>. When the gate is open the wrapped operation runs and its
  outcome is the outcome of the call; an error leaves through the throttled operation as
  it is. When the gate is shut the call returns the instance's idle value.
\<close>

definition throttled_call ::
  "('k, 't, 'w) config \<Rightarrow> nat \<Rightarrow> nat \<Rightarrow> ('k, 't, 'w) store \<Rightarrow> outcome \<times> ('k, 't, 'w) store" where
  "throttled_call c r now s =
     (let i = heap s ! r; s0 = s\<lparr>trace := trace s @ [Invoking r]\<rparr> in
      if t_gate (throttler c) (tstate i) now then
        (let admitted = t_admit (throttler c) (tstate i) now in
         case call_thunk c (wrapped_op i) (s0\<lparr>heap := (heap s0)[r := i\<lparr>tstate := admitted\<rparr>]\<rparr>) of
           (Inl e, s2) \<Rightarrow> (Inl e, s2)
         | (Inr v, s2) \<Rightarrow>
             (Inr v, s2\<lparr>heap := (heap s2)[r := i\<lparr>tstate := t_settle (throttler c) admitted v\<rparr>]\<rparr>))
      else
        (Inr (t_idle (throttler c) (tstate i)),
         s0\<lparr>heap := (heap s0)[r := i\<lparr>tstate := t_reject (throttler c) (tstate i) now\<rparr>]\<rparr>))"

text \<open>
  Lines 74 to 77. \<open>w\<close> names the activation of \<^verbatim>\<open>makeInputSensitiveThrottle\<close> the closure
  belongs to; it is used for the trace only.
\<close>

definition makeThrottleFnForInput ::
  "('k, 't, 'w) config \<Rightarrow> nat \<Rightarrow> val list \<Rightarrow> ('k, 't, 'w) store \<Rightarrow> nat \<times> ('k, 't, 'w) store" where
  "makeThrottleFnForInput c w args s =
     (case throttler_apply c (Thunk args) s of (throttled, s') \<Rightarrow>
        (throttled, s'\<lparr>trace := trace s' @ [ThrottlerCalled w args throttled]\<rparr>))"

text \<open>
  Modelled from the spec: what \<^verbatim>\<open>memoizer(fn)\<close> does. It returns a memoized function
  with a new, empty registry; the memoized function is named by the index of its registry.
\<close>

definition memoizer_apply :: "('k, 't, 'w) store \<Rightarrow> nat \<times> ('k, 't, 'w) store" where
  "memoizer_apply s =
     (length (caches s),
      s\<lparr>caches := caches s @ [Map.empty],
        trace := trace s @ [MemoizerCalled (length (caches s))]\<rparr>)"

text \<open>
  Modelled from the spec: what calling the memoized function of registry \<open>w\<close> does,
  \<open>fn\<close> being the function that was memoized. A hit returns the stored result; a miss
  calls \<open>fn\<close> with the arguments and stores what it returned under their key.
\<close>

definition memoized ::
  "('k, 't, 'w) config \<Rightarrow> nat \<Rightarrow> (val list \<Rightarrow> ('k, 't, 'w) store \<Rightarrow> nat \<times> ('k, 't, 'w) store)
     \<Rightarrow> val list \<Rightarrow> ('k, 't, 'w) store \<Rightarrow> nat \<times> ('k, 't, 'w) store" where
  "memoized c w fn args s =
     (let s0 = s\<lparr>trace := trace s @ [Resolving w args]\<rparr> in
      case (caches s0 ! w) (memo_key c args) of
        Some r \<Rightarrow> (r, s0)
      | None \<Rightarrow>
          (case fn args s0 of (r, s1) \<Rightarrow>
             (r, s1\<lparr>caches := (caches s1)[w := (caches s1 ! w)(memo_key c args \<mapsto> r)]\<rparr>)))"

text \<open>
  Line 79, \<^verbatim>\<open>throttleFnsCachedByInput = memoizer(makeThrottleFnForInput)\<close>, as it is called
  on line 82: the memoized \<^verbatim>\<open>makeThrottleFnForInput\<close> of wrapper \<open>w\<close>.
\<close>

definition throttleFnsCachedByInput ::
  "('k, 't, 'w) config \<Rightarrow> nat \<Rightarrow> val list \<Rightarrow> ('k, 't, 'w) store \<Rightarrow> nat \<times> ('k, 't, 'w) store" where
  "throttleFnsCachedByInput c w args s = memoized c w (makeThrottleFnForInput c w) args s"

text \<open>
  Lines 73 to 84: constructing the combinator applies the memoizer to
  \<^verbatim>\<open>makeThrottleFnForInput\<close> and returns the wrapped function, named by its registry.
\<close>

definition makeInputSensitiveThrottle ::
  "('k, 't, 'w) config \<Rightarrow> ('k, 't, 'w) store \<Rightarrow> nat \<times> ('k, 't, 'w) store" where
  "makeInputSensitiveThrottle c s = memoizer_apply s"

text \<open>Lines 81 to 84: the wrapped function \<open>w\<close> called with \<open>args\<close> at time \<open>now\<close>.\<close>

definition wrappedFunction ::
  "('k, 't, 'w) config \<Rightarrow> nat \<Rightarrow> val list \<Rightarrow> nat \<Rightarrow> ('k, 't, 'w) store
     \<Rightarrow> outcome \<times> ('k, 't, 'w) store" where
  "wrappedFunction c w args now s =
     (case throttleFnsCachedByInput c w args s of (throttleFnForInput, s1) \<Rightarrow>
        throttled_call c throttleFnForInput now s1)"

section \<open>Histories\<close>

text \<open>
  A caller constructs wrappers and calls the ones it holds. \<open>Call w args now\<close> on a
  wrapper that was never constructed is not something a program can do; \<open>step\<close> skips it.
\<close>

datatype action = Make | Call nat "val list" nat

fun step :: "('k, 't, 'w) config \<Rightarrow> ('k, 't, 'w) store \<Rightarrow> action \<Rightarrow> ('k, 't, 'w) store" where
  "step c s Make = snd (makeInputSensitiveThrottle c s)"
| "step c s (Call w args now) =
     (if w < length (caches s) then snd (wrappedFunction c w args now s) else s)"

definition exec ::
  "('k, 't, 'w) config \<Rightarrow> action list \<Rightarrow> ('k, 't, 'w) store \<Rightarrow> ('k, 't, 'w) store" where
  "exec c acts s = foldl (step c) s acts"

section \<open>What a call resolves\<close>

text \<open>
  Observers of a call that is about to happen in store \<open>s\<close>: the address of the throttle
  instance the call resolves, that instance as the call finds it, whether its gate is open
  at time \<open>now\<close>, and the argument array its closure captured.
\<close>

definition resolved :: "('k, 't, 'w) config \<Rightarrow> nat \<Rightarrow> val list \<Rightarrow> ('k, 't, 'w) store \<Rightarrow> nat" where
  "resolved c w args s = fst (throttleFnsCachedByInput c w args s)"

definition instance_for ::
  "('k, 't, 'w) config \<Rightarrow> nat \<Rightarrow> val list \<Rightarrow> ('k, 't, 'w) store \<Rightarrow> 't throttled" where
  "instance_for c w args s =
     (case throttleFnsCachedByInput c w args s of (r, s1) \<Rightarrow> heap s1 ! r)"

definition gate_open ::
  "('k, 't, 'w) config \<Rightarrow> nat \<Rightarrow> val list \<Rightarrow> nat \<Rightarrow> ('k, 't, 'w) store \<Rightarrow> bool" where
  "gate_open c w args now s = t_gate (throttler c) (tstate (instance_for c w args s)) now"

definition captured :: "('k, 't, 'w) config \<Rightarrow> nat \<Rightarrow> val list \<Rightarrow> ('k, 't, 'w) store \<Rightarrow> val list" where
  "captured c w args s = (case wrapped_op (instance_for c w args s) of Thunk a \<Rightarrow> a)"

text \<open>
  Counting on the trace: how often the factory \<^verbatim>\<open>makeThrottleFnForInput\<close> of wrapper \<open>w\<close>
  applied the throttler for an argument list with key \<open>k\<close>; and whether a history holds a
  call of wrapper \<open>w\<close> with key \<open>k\<close>.
\<close>

definition factory_runs :: "('k, 't, 'w) config \<Rightarrow> nat \<Rightarrow> 'k \<Rightarrow> event list \<Rightarrow> nat" where
  "factory_runs c w k tr =
     length (filter (\<lambda>e. case e of ThrottlerCalled w' args r \<Rightarrow> w' = w \<and> memo_key c args = k
                                  | _ \<Rightarrow> False) tr)"

definition key_called :: "('k, 't, 'w) config \<Rightarrow> nat \<Rightarrow> 'k \<Rightarrow> action list \<Rightarrow> bool" where
  "key_called c w k acts =
     list_ex (\<lambda>a. case a of Call w' args now \<Rightarrow> w' = w \<and> memo_key c args = k | Make \<Rightarrow> False) acts"

section \<open>Invariants of the store\<close>

text \<open>
  \<open>sound\<close>: every registered address is allocated, and no address is registered twice,
  neither under two keys nor in two registries.
  \<open>counted\<close>: the factory of a wrapper has run once for each key its registry holds and
  for no other.
  \<open>memo_counted\<close>: each registry stems from one application of the memoizer.
\<close>

definition sound :: "('k, 't, 'w) store \<Rightarrow> bool" where
  "sound s \<longleftrightarrow>
     (\<forall>w<length (caches s). \<forall>k r. (caches s ! w) k = Some r \<longrightarrow> r < length (heap s)) \<and>
     (\<forall>w<length (caches s). \<forall>w'<length (caches s). \<forall>k k' r.
         (caches s ! w) k = Some r \<longrightarrow> (caches s ! w') k' = Some r \<longrightarrow> w = w' \<and> k = k')"

definition counted :: "('k, 't, 'w) config \<Rightarrow> ('k, 't, 'w) store \<Rightarrow> bool" where
  "counted c s \<longleftrightarrow>
     (\<forall>w k. factory_runs c w k (trace s) =
        (if w < length (caches s) then (case (caches s ! w) k of None \<Rightarrow> 0 | Some r \<Rightarrow> 1) else 0))"

definition memo_counted :: "('k, 't, 'w) store \<Rightarrow> bool" where
  "memo_counted s \<longleftrightarrow>
     (\<forall>n. count_list (trace s) (MemoizerCalled n) = (if n < length (caches s) then 1 else 0))"

section \<open>Collaborators to run the combinator with\<close>

text \<open>
  The usage example in the source's comment (lines 33 to 40) wraps a one-parameter
  target with a leading-edge debounce of 200 time units. \<open>leading_debounce\<close> keeps the
  time of the last call and the last result: a call invokes the operation when no call
  came within the last \<open>wait\<close> units, and a suppressed call returns the last result
  (\<open>VUndefined\<close> before the first). \<open>never_open\<close> suppresses every call, as a
  trailing-edge debounce does within the call itself.
\<close>

definition leading_debounce :: "nat \<Rightarrow> (nat option \<times> val) throttle_policy" where
  "leading_debounce wait =
     \<lparr>t_fresh = (None, VUndefined),
      t_gate = (\<lambda>st now. case fst st of None \<Rightarrow> True | Some l \<Rightarrow> l + wait \<le> now),
      t_admit = (\<lambda>st now. (Some now, snd st)),
      t_settle = (\<lambda>st v. (fst st, v)),
      t_reject = (\<lambda>st now. (Some now, snd st)),
      t_idle = snd\<rparr>"

definition never_open :: "unit throttle_policy" where
  "never_open =
     \<lparr>t_fresh = (), t_gate = (\<lambda>st now. False), t_admit = (\<lambda>st now. st),
      t_settle = (\<lambda>st v. st), t_reject = (\<lambda>st now. st), t_idle = (\<lambda>st. VUndefined)\<rparr>"

text \<open>
  \<open>first_param\<close>: the value bound to the first parameter of a function called with the
  argument list \<open>xs\<close>. The target \<open>echo\<close> returns its first parameter, as
  \<^verbatim>\<open>(messageId, n) => messageId\<close> does, and counts its invocations in the world;
  \<open>failing\<close> always throws. The memoizer of the three configurations files an argument
  list under its first argument.
\<close>

definition first_param :: "val list \<Rightarrow> val" where
  "first_param xs = (case xs of [] \<Rightarrow> VUndefined | x # _ \<Rightarrow> x)"

definition echo :: "val list \<Rightarrow> nat \<Rightarrow> outcome \<times> nat" where
  "echo xs n = (Inr (first_param xs), Suc n)"

definition failing :: "val list \<Rightarrow> nat \<Rightarrow> outcome \<times> nat" where
  "failing xs n = (Inl (VStr ''boom''), Suc n)"

definition demo :: "(val, nat option \<times> val, nat) config" where
  "demo = \<lparr>func = echo, memo_key = first_param, throttler = leading_debounce 200\<rparr>"

definition demo_failing :: "(val, nat option \<times> val, nat) config" where
  "demo_failing = \<lparr>func = failing, memo_key = first_param, throttler = leading_debounce 200\<rparr>"

text \<open>
  \<open>second_param\<close>: the value bound to the second parameter. The target \<open>pick_second\<close>
  returns its second parameter, as \<^verbatim>\<open>(messageId, n) => n\<close> does: its result depends on an
  argument that is not part of the key.
\<close>

definition second_param :: "val list \<Rightarrow> val" where
  "second_param xs = (case xs of _ # y # _ \<Rightarrow> y | _ \<Rightarrow> VUndefined)"

definition pick_second :: "val list \<Rightarrow> nat \<Rightarrow> outcome \<times> nat" where
  "pick_second xs n = (Inr (second_param xs), Suc n)"

definition demo_second :: "(val, nat option \<times> val, nat) config" where
  "demo_second = \<lparr>func = pick_second, memo_key = first_param, throttler = leading_debounce 200\<rparr>"

definition demo_shut :: "(val, unit, nat) config" where
  "demo_shut = \<lparr>func = echo, memo_key = first_param, throttler = never_open\<rparr>"

section \<open>Collaborators that throw or forget\<close>

text \<open>
  Modelled from the spec: what the collaborators may do beyond their contract. Section 3
  of the specification leaves eviction to the memoizer, and section 7 lets a collaborator
  that does not conform fail with an ordinary error at the point of misuse. A \<open>frail\<close>
  setting adds this to a configuration \<open>base\<close>:
  \<open>memoizer_throws\<close>: the error, if any, with which \<^verbatim>\<open>memoizer(fn)\<close> fails;
  \<open>lookup_throws\<close>: the error with which the memoized function fails for an argument
  list before it reads its registry (its key function throws, or what the memoizer
  returned cannot be called);
  \<open>evicts\<close>: what the memoizer keeps of its registry at the moment it stores an entry
  under a key;
  \<open>throttler_throws\<close>: the error with which \<^verbatim>\<open>throttler(op)\<close> fails;
  \<open>throttled_throws\<close>: the error with which the throttled operation fails by itself
  when called (it throws, or what the throttler returned cannot be called).
\<close>

record ('k, 't, 'w) frail =
  base :: "('k, 't, 'w) config"
  memoizer_throws :: "val option"
  lookup_throws :: "val list \<Rightarrow> val option"
  evicts :: "'k \<Rightarrow> ('k \<rightharpoonup> nat) \<Rightarrow> ('k \<rightharpoonup> nat)"
  throttler_throws :: "thunk \<Rightarrow> val option"
  throttled_throws :: "'t \<Rightarrow> nat \<Rightarrow> val option"

text \<open>
  Modelled from the spec: \<^verbatim>\<open>throttler(op)\<close> and the call of a throttled operation, for a
  frail throttler. Where nothing throws they are \<open>throttler_apply\<close> and \<open>throttled_call\<close>.
\<close>

definition throttler_apply_f ::
  "('k, 't, 'w) frail \<Rightarrow> thunk \<Rightarrow> ('k, 't, 'w) store \<Rightarrow> (val + nat) \<times> ('k, 't, 'w) store" where
  "throttler_apply_f f opn s =
     (case throttler_throws f opn of
        Some e \<Rightarrow> (Inl e, s)
      | None \<Rightarrow> (case throttler_apply (base f) opn s of (r, s') \<Rightarrow> (Inr r, s')))"

definition throttled_call_f ::
  "('k, 't, 'w) frail \<Rightarrow> nat \<Rightarrow> nat \<Rightarrow> ('k, 't, 'w) store \<Rightarrow> outcome \<times> ('k, 't, 'w) store" where
  "throttled_call_f f r now s =
     (case throttled_throws f (tstate (heap s ! r)) now of
        Some e \<Rightarrow> (Inl e, s\<lparr>trace := trace s @ [Invoking r]\<rparr>)
      | None \<Rightarrow> throttled_call (base f) r now s)"

text \<open>
  Lines 74 to 77 once more: an error of \<^verbatim>\<open>throttler(...)\<close> leaves
  \<^verbatim>\<open>makeThrottleFnForInput\<close> as it is, for the source has no handler.
\<close>

definition makeThrottleFnForInput_f ::
  "('k, 't, 'w) frail \<Rightarrow> nat \<Rightarrow> val list \<Rightarrow> ('k, 't, 'w) store
     \<Rightarrow> (val + nat) \<times> ('k, 't, 'w) store" where
  "makeThrottleFnForInput_f f w args s =
     (case throttler_apply_f f (Thunk args) s of
        (Inl e, s') \<Rightarrow> (Inl e, s')
      | (Inr throttled, s') \<Rightarrow>
          (Inr throttled, s'\<lparr>trace := trace s' @ [ThrottlerCalled w args throttled]\<rparr>))"

text \<open>
  Modelled from the spec: \<^verbatim>\<open>memoizer(fn)\<close> and the call of the memoized function, for a
  frail memoizer. A miss stores the result of \<open>fn\<close> in what \<open>evicts\<close> keeps of the
  registry; an error of \<open>fn\<close> stores nothing and leaves the memoized function as it is.
\<close>

definition memoizer_apply_f ::
  "('k, 't, 'w) frail \<Rightarrow> ('k, 't, 'w) store \<Rightarrow> (val + nat) \<times> ('k, 't, 'w) store" where
  "memoizer_apply_f f s =
     (case memoizer_throws f of
        Some e \<Rightarrow> (Inl e, s)
      | None \<Rightarrow> (case memoizer_apply s of (w, s') \<Rightarrow> (Inr w, s')))"

definition memoized_f ::
  "('k, 't, 'w) frail \<Rightarrow> nat
     \<Rightarrow> (val list \<Rightarrow> ('k, 't, 'w) store \<Rightarrow> (val + nat) \<times> ('k, 't, 'w) store)
     \<Rightarrow> val list \<Rightarrow> ('k, 't, 'w) store \<Rightarrow> (val + nat) \<times> ('k, 't, 'w) store" where
  "memoized_f f w fn args s =
     (let s0 = s\<lparr>trace := trace s @ [Resolving w args]\<rparr>; k = memo_key (base f) args in
      case lookup_throws f args of
        Some e \<Rightarrow> (Inl e, s0)
      | None \<Rightarrow>
          (case (caches s0 ! w) k of
             Some r \<Rightarrow> (Inr r, s0)
           | None \<Rightarrow>
               (case fn args s0 of
                  (Inl e, s1) \<Rightarrow> (Inl e, s1)
                | (Inr r, s1) \<Rightarrow>
                    (Inr r, s1\<lparr>caches := (caches s1)[w := (evicts f k (caches s1 ! w))(k \<mapsto> r)]\<rparr>))))"

text \<open>
  Lines 73 to 84 once more, with the same steps in the same order and, as in the source,
  no handler anywhere: an error of a step ends the call with that error.
\<close>

definition throttleFnsCachedByInput_f ::
  "('k, 't, 'w) frail \<Rightarrow> nat \<Rightarrow> val list \<Rightarrow> ('k, 't, 'w) store
     \<Rightarrow> (val + nat) \<times> ('k, 't, 'w) store" where
  "throttleFnsCachedByInput_f f w args s = memoized_f f w (makeThrottleFnForInput_f f w) args s"

definition makeInputSensitiveThrottle_f ::
  "('k, 't, 'w) frail \<Rightarrow> ('k, 't, 'w) store \<Rightarrow> (val + nat) \<times> ('k, 't, 'w) store" where
  "makeInputSensitiveThrottle_f f s = memoizer_apply_f f s"

definition wrappedFunction_f ::
  "('k, 't, 'w) frail \<Rightarrow> nat \<Rightarrow> val list \<Rightarrow> nat \<Rightarrow> ('k, 't, 'w) store
     \<Rightarrow> outcome \<times> ('k, 't, 'w) store" where
  "wrappedFunction_f f w args now s =
     (case throttleFnsCachedByInput_f f w args s of
        (Inl e, s1) \<Rightarrow> (Inl e, s1)
      | (Inr throttleFnForInput, s1) \<Rightarrow> throttled_call_f f throttleFnForInput now s1)"

fun step_f :: "('k, 't, 'w) frail \<Rightarrow> ('k, 't, 'w) store \<Rightarrow> action \<Rightarrow> ('k, 't, 'w) store" where
  "step_f f s Make = snd (makeInputSensitiveThrottle_f f s)"
| "step_f f s (Call w args now) =
     (if w < length (caches s) then snd (wrappedFunction_f f w args now s) else s)"

definition exec_f ::
  "('k, 't, 'w) frail \<Rightarrow> action list \<Rightarrow> ('k, 't, 'w) store \<Rightarrow> ('k, 't, 'w) store" where
  "exec_f f acts s = foldl (step_f f) s acts"

text \<open>
  \<open>retentive\<close>: the memoizer keeps every entry, and neither its lookup nor the throttler
  factory throws, so that what the factory made is stored and stays.
\<close>

definition retentive :: "('k, 't, 'w) frail \<Rightarrow> bool" where
  "retentive f \<longleftrightarrow>
     (\<forall>k m. evicts f k m = m) \<and> (\<forall>a. lookup_throws f a = None) \<and>
     (\<forall>t. throttler_throws f t = None)"

text \<open>
  \<open>makes\<close>: a call of wrapper \<open>w\<close> with \<open>args\<close> in store \<open>s\<close> is one in which the factory
  returns a new instance: the lookup goes through, the registry holds no entry for the
  key, and the throttler factory does not throw.
\<close>

definition makes :: "('k, 't, 'w) frail \<Rightarrow> nat \<Rightarrow> val list \<Rightarrow> ('k, 't, 'w) store \<Rightarrow> bool" where
  "makes f w args s \<longleftrightarrow>
     lookup_throws f args = None \<and> (caches s ! w) (memo_key (base f) args) = None \<and>
     throttler_throws f (Thunk args) = None"

text \<open>
  In the words of the specification's section 7: the error that the memoizer, the
  throttler or the target raises in the course of one call of the wrapped function, if
  any does. \<open>raised_in_call\<close> is the part of the throttled operation and the target.
\<close>

definition raised_in_call ::
  "('k, 't, 'w) frail \<Rightarrow> 't throttled \<Rightarrow> nat \<Rightarrow> 'w \<Rightarrow> val option" where
  "raised_in_call f i now wd =
     (case throttled_throws f (tstate i) now of
        Some e \<Rightarrow> Some e
      | None \<Rightarrow>
          if t_gate (throttler (base f)) (tstate i) now then
            (case wrapped_op i of Thunk a \<Rightarrow>
               (case fst (func (base f) [VArr a] wd) of Inl e \<Rightarrow> Some e | Inr v \<Rightarrow> None))
          else None)"

definition raised ::
  "('k, 't, 'w) frail \<Rightarrow> nat \<Rightarrow> val list \<Rightarrow> nat \<Rightarrow> ('k, 't, 'w) store \<Rightarrow> val option" where
  "raised f w args now s =
     (case lookup_throws f args of
        Some e \<Rightarrow> Some e
      | None \<Rightarrow>
          (case (caches s ! w) (memo_key (base f) args) of
             Some r \<Rightarrow> raised_in_call f (heap s ! r) now (world s)
           | None \<Rightarrow>
               (case throttler_throws f (Thunk args) of
                  Some e \<Rightarrow> Some e
                | None \<Rightarrow>
                    raised_in_call f
                      \<lparr>wrapped_op = Thunk args, tstate = t_fresh (throttler (base f))\<rparr>
                      now (world s))))"

text \<open>
  More counting on the trace: the applications of the memoizer, and the instances the
  factory runs returned, each with the closure it was made for.
\<close>

definition memoizer_calls :: "event list \<Rightarrow> nat" where
  "memoizer_calls tr =
     length (filter (\<lambda>e. case e of MemoizerCalled n \<Rightarrow> True | _ \<Rightarrow> False) tr)"

fun created :: "event list \<Rightarrow> (nat \<times> thunk) list" where
  "created [] = []"
| "created (ThrottlerCalled w args r # tr) = (r, Thunk args) # created tr"
| "created (e # tr) = created tr"

text \<open>
  \<open>tied\<close>: the factory runs on the trace are the instances on the heap, one for one, in
  the order of their addresses and each with the closure it was made for.
\<close>

definition tied :: "('k, 't, 'w) store \<Rightarrow> bool" where
  "tied s \<longleftrightarrow> created (trace s) = enumerate 0 (map wrapped_op (heap s))"

text \<open>
  Frail settings to run the combinator with. \<open>plain\<close> adds nothing to a configuration:
  the collaborators keep to their contract. \<open>capacity_one\<close> is a memoizer that keeps
  one entry only and drops the others when it stores. In the other four, one collaborator
  throws: the memoizer when it is applied, the memoized function at its lookup, the
  throttler factory, and what the throttler returned when it is called.
\<close>

definition plain :: "('k, 't, 'w) config \<Rightarrow> ('k, 't, 'w) frail" where
  "plain c =
     \<lparr>base = c, memoizer_throws = None, lookup_throws = (\<lambda>a. None), evicts = (\<lambda>k m. m),
      throttler_throws = (\<lambda>t. None), throttled_throws = (\<lambda>st now. None)\<rparr>"

definition capacity_one :: "('k, 't, 'w) config \<Rightarrow> ('k, 't, 'w) frail" where
  "capacity_one c = (plain c)\<lparr>evicts := (\<lambda>k m. Map.empty)\<rparr>"

definition bad_memoizer :: "('k, 't, 'w) config \<Rightarrow> ('k, 't, 'w) frail" where
  "bad_memoizer c = (plain c)\<lparr>memoizer_throws := Some (VStr ''memoizer'')\<rparr>"

definition bad_lookup :: "('k, 't, 'w) config \<Rightarrow> ('k, 't, 'w) frail" where
  "bad_lookup c = (plain c)\<lparr>lookup_throws := (\<lambda>a. Some (VStr ''lookup''))\<rparr>"

definition bad_throttler :: "('k, 't, 'w) config \<Rightarrow> ('k, 't, 'w) frail" where
  "bad_throttler c = (plain c)\<lparr>throttler_throws := (\<lambda>t. Some (VStr ''throttler''))\<rparr>"

definition not_callable :: "('k, 't, 'w) config \<Rightarrow> ('k, 't, 'w) frail" where
  "not_callable c = (plain c)\<lparr>throttled_throws := (\<lambda>st now. Some (VStr ''not a function''))\<rparr>"

lemmas frail_defs =
  plain_def throttler_apply_f_def throttled_call_f_def makeThrottleFnForInput_f_def
  memoizer_apply_f_def memoized_f_def throttleFnsCachedByInput_f_def
  makeInputSensitiveThrottle_f_def wrappedFunction_f_def

text \<open>The equations that run the combinator, and those of the first configuration.\<close>

lemmas run_defs =
  init_def makeInputSensitiveThrottle_def memoizer_apply_def
  wrappedFunction_def throttleFnsCachedByInput_def memoized_def makeThrottleFnForInput_def
  throttler_apply_def throttled_call_def call_thunk_def Let_def
  resolved_def instance_for_def gate_open_def captured_def

lemmas demo_defs = demo_def leading_debounce_def first_param_def echo_def

section \<open>Properties\<close>

subsection \<open>Calling the closure\<close>

lemma map_update_same: "f x = f (xs ! r) \<Longrightarrow> map f (xs[r := x]) = map f xs"
  by (cases "r < length xs") (simp_all add: map_update list_update_same_conv list_update_beyond)

lemma call_thunk_eq:
  "call_thunk c (Thunk a) s =
     (fst (func c [VArr a] (world s)),
      s\<lparr>world := snd (func c [VArr a] (world s)), trace := trace s @ [TargetCalled [VArr a]]\<rparr>)"
  by (simp add: call_thunk_def split: prod.splits)

subsection \<open>The throttled call, case by case\<close>

lemma throttled_call_shut:
  "\<not> t_gate (throttler c) (tstate (heap s ! r)) now \<Longrightarrow>
   throttled_call c r now s =
     (Inr (t_idle (throttler c) (tstate (heap s ! r))),
      s\<lparr>trace := trace s @ [Invoking r],
        heap := (heap s)[r := (heap s ! r)\<lparr>tstate := t_reject (throttler c) (tstate (heap s ! r)) now\<rparr>]\<rparr>)"
  by (simp add: throttled_call_def Let_def)

lemma throttled_call_throws:
  assumes "t_gate (throttler c) (tstate (heap s ! r)) now"
    and "wrapped_op (heap s ! r) = Thunk a"
    and "fst (func c [VArr a] (world s)) = Inl e"
  shows "throttled_call c r now s =
     (Inl e,
      s\<lparr>trace := trace s @ [Invoking r, TargetCalled [VArr a]],
        heap := (heap s)[r := (heap s ! r)\<lparr>tstate := t_admit (throttler c) (tstate (heap s ! r)) now\<rparr>],
        world := snd (func c [VArr a] (world s))\<rparr>)"
  using assms by (simp add: throttled_call_def Let_def call_thunk_eq)

lemma throttled_call_returns:
  assumes "t_gate (throttler c) (tstate (heap s ! r)) now"
    and "wrapped_op (heap s ! r) = Thunk a"
    and "fst (func c [VArr a] (world s)) = Inr v"
  shows "throttled_call c r now s =
     (Inr v,
      s\<lparr>trace := trace s @ [Invoking r, TargetCalled [VArr a]],
        heap := (heap s)[r := (heap s ! r)
                  \<lparr>tstate := t_settle (throttler c) (t_admit (throttler c) (tstate (heap s ! r)) now) v\<rparr>],
        world := snd (func c [VArr a] (world s))\<rparr>)"
  using assms by (simp add: throttled_call_def Let_def call_thunk_eq)

lemma throttled_call_cases:
  obtains (shut) "\<not> t_gate (throttler c) (tstate (heap s ! r)) now"
  | (throws) a e where "t_gate (throttler c) (tstate (heap s ! r)) now" "wrapped_op (heap s ! r) = Thunk a"
      "fst (func c [VArr a] (world s)) = Inl e"
  | (returns) a v where "t_gate (throttler c) (tstate (heap s ! r)) now" "wrapped_op (heap s ! r) = Thunk a"
      "fst (func c [VArr a] (world s)) = Inr v"
proof (cases "t_gate (throttler c) (tstate (heap s ! r)) now")
  case False then show ?thesis using shut by simp
next
  case True
  obtain a where a: "wrapped_op (heap s ! r) = Thunk a" by (cases "wrapped_op (heap s ! r)")
  show ?thesis
  proof (cases "fst (func c [VArr a] (world s))")
    case (Inl e) then show ?thesis using throws True a by simp
  next
    case (Inr v) then show ?thesis using returns True a by simp
  qed
qed

lemma throttled_call_caches [simp]: "caches (snd (throttled_call c r now s)) = caches s"
  by (cases c s r now rule: throttled_call_cases)
     (simp_all add: throttled_call_shut throttled_call_throws throttled_call_returns)

lemma throttled_call_heap_length [simp]:
  "length (heap (snd (throttled_call c r now s))) = length (heap s)"
  by (cases c s r now rule: throttled_call_cases)
     (simp_all add: throttled_call_shut throttled_call_throws throttled_call_returns)

lemma throttled_call_heap_other:
  "r' \<noteq> r \<Longrightarrow> heap (snd (throttled_call c r now s)) ! r' = heap s ! r'"
  by (cases c s r now rule: throttled_call_cases)
     (simp_all add: throttled_call_shut throttled_call_throws throttled_call_returns)

lemma throttled_call_ops:
  "map wrapped_op (heap (snd (throttled_call c r now s))) = map wrapped_op (heap s)"
  by (cases c s r now rule: throttled_call_cases)
     (simp_all add: throttled_call_shut throttled_call_throws throttled_call_returns
        map_update_same)

lemma throttled_call_trace:
  "trace (snd (throttled_call c r now s)) =
     trace s @ Invoking r #
       (if t_gate (throttler c) (tstate (heap s ! r)) now
        then [TargetCalled [VArr (case wrapped_op (heap s ! r) of Thunk a \<Rightarrow> a)]] else [])"
  by (cases c s r now rule: throttled_call_cases)
     (simp_all add: throttled_call_shut throttled_call_throws throttled_call_returns)

lemma throttled_call_out:
  "fst (throttled_call c r now s) =
     (if t_gate (throttler c) (tstate (heap s ! r)) now
      then fst (func c [VArr (case wrapped_op (heap s ! r) of Thunk a \<Rightarrow> a)] (world s))
      else Inr (t_idle (throttler c) (tstate (heap s ! r))))"
  by (cases c s r now rule: throttled_call_cases)
     (simp_all add: throttled_call_shut throttled_call_throws throttled_call_returns)

subsection \<open>Resolution: hit and miss\<close>

lemma resolve_hit:
  "(caches s ! w) (memo_key c args) = Some r \<Longrightarrow>
   throttleFnsCachedByInput c w args s = (r, s\<lparr>trace := trace s @ [Resolving w args]\<rparr>)"
  by (simp add: throttleFnsCachedByInput_def memoized_def Let_def)

lemma resolve_miss:
  "(caches s ! w) (memo_key c args) = None \<Longrightarrow>
   throttleFnsCachedByInput c w args s =
     (length (heap s),
      s\<lparr>trace := trace s @ [Resolving w args, ThrottlerCalled w args (length (heap s))],
        heap := heap s @ [\<lparr>wrapped_op = Thunk args, tstate = t_fresh (throttler c)\<rparr>],
        caches := (caches s)[w := (caches s ! w)(memo_key c args \<mapsto> length (heap s))]\<rparr>)"
  by (simp add: throttleFnsCachedByInput_def memoized_def makeThrottleFnForInput_def
      throttler_apply_def Let_def)

subsection \<open>The store stays sound\<close>

lemma sound_init: "sound (init w0)"
  by (simp add: sound_def init_def)

lemma sound_cong:
  "caches s' = caches s \<Longrightarrow> length (heap s') = length (heap s) \<Longrightarrow> sound s' = sound s"
  by (simp add: sound_def)

lemma sound_make: "sound s \<Longrightarrow> sound (snd (makeInputSensitiveThrottle c s))"
  by (auto simp: sound_def makeInputSensitiveThrottle_def memoizer_apply_def nth_append
      less_Suc_eq)

lemma sound_resolve:
  assumes "sound s" "w < length (caches s)"
  shows "sound (snd (throttleFnsCachedByInput c w args s))"
proof (cases "(caches s ! w) (memo_key c args)")
  case (Some r)
  then show ?thesis using assms by (simp add: resolve_hit sound_def)
next
  case None
  have a: "\<forall>w<length (caches s). \<forall>k r. (caches s ! w) k = Some r \<longrightarrow> r < length (heap s)"
    using assms by (simp add: sound_def)
  have b: "\<forall>w<length (caches s). \<forall>w'<length (caches s). \<forall>k k' r.
         (caches s ! w) k = Some r \<longrightarrow> (caches s ! w') k' = Some r \<longrightarrow> w = w' \<and> k = k'"
    using assms by (simp add: sound_def)
  show ?thesis
    unfolding resolve_miss [OF None] sound_def
    using a b assms(2)
    by (auto simp: nth_list_update less_Suc_eq split: if_splits)
qed

lemma sound_call:
  assumes "sound s" "w < length (caches s)"
  shows "sound (snd (wrappedFunction c w args now s))"
proof -
  obtain r s1 where r: "throttleFnsCachedByInput c w args s = (r, s1)" by force
  then have "sound s1" using sound_resolve [OF assms, of c args] by simp
  then show ?thesis
    by (simp add: wrappedFunction_def r sound_cong [of "snd (throttled_call c r now s1)" s1])
qed

lemma sound_step: "sound s \<Longrightarrow> sound (step c s a)"
  by (cases a) (simp_all add: sound_make sound_call)

lemma sound_exec: "sound s \<Longrightarrow> sound (exec c acts s)"
  unfolding exec_def by (induction acts arbitrary: s) (simp_all add: sound_step)

subsection \<open>The wrapped function in two steps\<close>

lemma wrapped_eq:
  "wrappedFunction c w args now s =
     throttled_call c (resolved c w args s) now (snd (throttleFnsCachedByInput c w args s))"
  by (simp add: wrappedFunction_def resolved_def split: prod.splits)

lemma instance_for_eq:
  "instance_for c w args s = heap (snd (throttleFnsCachedByInput c w args s)) ! resolved c w args s"
  by (simp add: instance_for_def resolved_def split: prod.splits)

lemma resolve_world [simp]: "world (snd (throttleFnsCachedByInput c w args s)) = world s"
  by (cases "(caches s ! w) (memo_key c args)") (simp_all add: resolve_hit resolve_miss)

subsection \<open>Registry entries persist\<close>

lemma call_keeps_entry:
  assumes "w < length (caches s)" "(caches s ! w) k = Some r"
  shows "(caches (snd (wrappedFunction c w' args now s)) ! w) k = Some r"
proof (cases "(caches s ! w') (memo_key c args)")
  case (Some r')
  then show ?thesis using assms by (simp add: wrapped_eq resolve_hit)
next
  case None
  then show ?thesis using assms
    by (cases "w' = w") (auto simp: wrapped_eq resolve_miss)
qed

lemma call_caches_length [simp]:
  "length (caches (snd (wrappedFunction c w args now s))) = length (caches s)"
  by (cases "(caches s ! w) (memo_key c args)") (simp_all add: wrapped_eq resolve_hit resolve_miss)

lemma step_keeps_entry:
  assumes "w < length (caches s)" "(caches s ! w) k = Some r"
  shows "w < length (caches (step c s a)) \<and> (caches (step c s a) ! w) k = Some r"
  using assms
  by (cases a) (simp_all add: call_keeps_entry makeInputSensitiveThrottle_def memoizer_apply_def nth_append)

lemma exec_keeps_entry:
  assumes "w < length (caches s)" "(caches s ! w) k = Some r"
  shows "w < length (caches (exec c acts s)) \<and> (caches (exec c acts s) ! w) k = Some r"
  using assms unfolding exec_def
proof (induction acts arbitrary: s)
  case Nil then show ?case by simp
next
  case (Cons a acts)
  then show ?case using step_keeps_entry [of w s k r c a] by simp
qed

lemma call_registers:
  assumes "w < length (caches s)"
  shows "(caches (snd (wrappedFunction c w args now s)) ! w) (memo_key c args) = Some (resolved c w args s)"
proof (cases "(caches s ! w) (memo_key c args)")
  case (Some r)
  then show ?thesis using assms by (simp add: wrapped_eq resolve_hit resolved_def)
next
  case None
  then show ?thesis using assms by (simp add: wrapped_eq resolve_miss resolved_def)
qed

subsection \<open>What one call changes\<close>

lemma call_cache_same:
  assumes "w < length (caches s)"
  shows "(caches (snd (wrappedFunction c w args now s)) ! w) k =
           (if k = memo_key c args then Some (resolved c w args s) else (caches s ! w) k)"
proof (cases "(caches s ! w) (memo_key c args)")
  case (Some r)
  then show ?thesis using assms by (auto simp: wrapped_eq resolve_hit resolved_def)
next
  case None
  then show ?thesis using assms by (simp add: wrapped_eq resolve_miss resolved_def)
qed

lemma call_cache_other:
  "w' \<noteq> w \<Longrightarrow> caches (snd (wrappedFunction c w args now s)) ! w' = caches s ! w'"
  by (cases "(caches s ! w) (memo_key c args)") (simp_all add: wrapped_eq resolve_hit resolve_miss)

lemma call_heap_length:
  "length (heap (snd (wrappedFunction c w args now s))) =
     (if (caches s ! w) (memo_key c args) = None then Suc (length (heap s)) else length (heap s))"
  by (cases "(caches s ! w) (memo_key c args)") (simp_all add: wrapped_eq resolve_hit resolve_miss)

lemma call_heap_other:
  assumes "r < length (heap s)" "r \<noteq> resolved c w args s"
  shows "heap (snd (wrappedFunction c w args now s)) ! r = heap s ! r"
proof (cases "(caches s ! w) (memo_key c args)")
  case (Some r')
  then show ?thesis using assms
    by (simp add: wrapped_eq throttled_call_heap_other) (simp add: resolve_hit)
next
  case None
  then show ?thesis using assms
    by (simp add: wrapped_eq throttled_call_heap_other) (simp add: resolve_miss nth_append)
qed

lemma resolved_eq:
  "resolved c w args s = (case (caches s ! w) (memo_key c args) of Some r \<Rightarrow> r | None \<Rightarrow> length (heap s))"
  by (cases "(caches s ! w) (memo_key c args)") (simp_all add: resolved_def resolve_hit resolve_miss)

lemma instance_for_hit:
  "(caches s ! w) (memo_key c args) = Some r \<Longrightarrow> instance_for c w args s = heap s ! r"
  by (simp add: instance_for_def resolve_hit)

lemma instance_for_miss:
  "(caches s ! w) (memo_key c args) = None \<Longrightarrow>
   instance_for c w args s = \<lparr>wrapped_op = Thunk args, tstate = t_fresh (throttler c)\<rparr>"
  by (simp add: instance_for_def resolve_miss)

lemma sound_range:
  "sound s \<Longrightarrow> w < length (caches s) \<Longrightarrow> (caches s ! w) k = Some r \<Longrightarrow> r < length (heap s)"
  by (auto simp: sound_def)

lemma sound_inj:
  "sound s \<Longrightarrow> w < length (caches s) \<Longrightarrow> w' < length (caches s) \<Longrightarrow>
   (caches s ! w) k = Some r \<Longrightarrow> (caches s ! w') k' = Some r \<Longrightarrow> w = w' \<and> k = k'"
  unfolding sound_def by blast

subsection \<open>The frame of a call\<close>

text \<open>
  What a call of wrapper \<open>w\<close> with \<open>a\<close> leaves alone: the registration and the instance of
  any \<open>b\<close> in any wrapper \<open>w'\<close>, unless \<open>w' = w\<close> and \<open>b\<close> has the key of \<open>a\<close>.
\<close>

lemma call_frame:
  assumes snd: "sound s" and w: "w < length (caches s)" and w': "w' < length (caches s)"
    and diff: "w' \<noteq> w \<or> memo_key c b \<noteq> memo_key c a"
  shows "(caches (snd (wrappedFunction c w a now s)) ! w') (memo_key c b) = (caches s ! w') (memo_key c b)"
    and "instance_for c w' b (snd (wrappedFunction c w a now s)) = instance_for c w' b s"
    and "resolved c w' b (snd (wrappedFunction c w a now s)) \<noteq> resolved c w a s"
proof -
  let ?s' = "snd (wrappedFunction c w a now s)"
  show cache: "(caches ?s' ! w') (memo_key c b) = (caches s ! w') (memo_key c b)"
    using diff w by (cases "w' = w") (simp_all add: call_cache_same call_cache_other)
  have snd': "sound ?s'" using snd w by (rule sound_call)
  have reg: "(caches ?s' ! w) (memo_key c a) = Some (resolved c w a s)"
    using w by (rule call_registers)
  have w1: "w < length (caches ?s')" and w1': "w' < length (caches ?s')" using w w' by simp_all
  have ra: "resolved c w a s < length (heap ?s')"
    using sound_range [OF snd' w1 reg] .
  have both: "instance_for c w' b ?s' = instance_for c w' b s
      \<and> resolved c w' b ?s' \<noteq> resolved c w a s"
  proof (cases "(caches s ! w') (memo_key c b)")
    case None
    then have n': "(caches ?s' ! w') (memo_key c b) = None" using cache by simp
    have "instance_for c w' b ?s' = instance_for c w' b s"
      by (simp add: instance_for_miss None n')
    moreover have "resolved c w' b ?s' \<noteq> resolved c w a s"
      using ra by (simp add: resolved_eq [of c w' b ?s'] n')
    ultimately show ?thesis by simp
  next
    case (Some rb)
    then have s': "(caches ?s' ! w') (memo_key c b) = Some rb" using cache by simp
    have ne: "rb \<noteq> resolved c w a s"
    proof
      assume "rb = resolved c w a s"
      then have "(caches ?s' ! w) (memo_key c a) = Some rb" using reg by simp
      from sound_inj [OF snd' w1' w1 s' this] diff show False by auto
    qed
    have "rb < length (heap s)" using sound_range [OF snd w' Some] .
    then have "heap ?s' ! rb = heap s ! rb" using ne by (rule call_heap_other)
    then have "instance_for c w' b ?s' = instance_for c w' b s"
      by (simp add: instance_for_hit Some s')
    moreover have "resolved c w' b ?s' \<noteq> resolved c w a s"
      using ne by (simp add: resolved_eq [of c w' b ?s'] s')
    ultimately show ?thesis by simp
  qed
  show "instance_for c w' b ?s' = instance_for c w' b s" using both by simp
  show "resolved c w' b ?s' \<noteq> resolved c w a s" using both by simp
qed

lemma sound_reach: "sound (exec c acts (init w0))"
  by (rule sound_exec [OF sound_init])

subsection \<open>Histories\<close>

lemma make_eq:
  "makeInputSensitiveThrottle c s =
     (length (caches s),
      s\<lparr>caches := caches s @ [Map.empty], trace := trace s @ [MemoizerCalled (length (caches s))]\<rparr>)"
  by (simp add: makeInputSensitiveThrottle_def memoizer_apply_def)

lemma exec_Nil [simp]: "exec c [] s = s"
  by (simp add: exec_def)

lemma exec_Cons [simp]: "exec c (a # acts) s = exec c acts (step c s a)"
  by (simp add: exec_def)


lemma step_caches_length: "length (caches s) \<le> length (caches (step c s a))"
  by (cases a) (simp_all add: make_eq)

lemma exec_caches_length: "length (caches s) \<le> length (caches (exec c acts s))"
proof (induction acts arbitrary: s)
  case Nil then show ?case by simp
next
  case (Cons a acts)
  have "length (caches s) \<le> length (caches (step c s a))" by (rule step_caches_length)
  also have "\<dots> \<le> length (caches (exec c acts (step c s a)))" by (rule Cons.IH)
  finally show ?case by simp
qed

subsection \<open>The events of one call\<close>

lemma call_trace:
  "trace (snd (wrappedFunction c w args now s)) =
     trace s @ Resolving w args #
       (if (caches s ! w) (memo_key c args) = None
        then [ThrottlerCalled w args (resolved c w args s)] else []) @
       Invoking (resolved c w args s) #
       (if gate_open c w args now s then [TargetCalled [VArr (captured c w args s)]] else [])"
proof (cases "(caches s ! w) (memo_key c args)")
  case None
  then show ?thesis
    by (simp add: wrapped_eq throttled_call_trace gate_open_def captured_def instance_for_eq)
       (simp add: resolve_miss resolved_def)
next
  case (Some r)
  then show ?thesis
    by (simp add: wrapped_eq throttled_call_trace gate_open_def captured_def instance_for_eq)
       (simp add: resolve_hit resolved_def)
qed

subsection \<open>Counting factory runs\<close>

lemma factory_runs_append:
  "factory_runs c w k (xs @ ys) = factory_runs c w k xs + factory_runs c w k ys"
  by (simp add: factory_runs_def)

lemma factory_runs_simps [simp]:
  "factory_runs c w k [] = 0"
  "factory_runs c w k (ThrottlerCalled w' args r # tr) =
     (if w' = w \<and> memo_key c args = k then Suc (factory_runs c w k tr) else factory_runs c w k tr)"
  "factory_runs c w k (MemoizerCalled n # tr) = factory_runs c w k tr"
  "factory_runs c w k (Resolving w' args # tr) = factory_runs c w k tr"
  "factory_runs c w k (Invoking r # tr) = factory_runs c w k tr"
  "factory_runs c w k (TargetCalled xs # tr) = factory_runs c w k tr"
  by (simp_all add: factory_runs_def)

lemma counted_init: "counted c (init w0)"
  by (simp add: counted_def init_def)

subsection \<open>Counting memoizer applications\<close>

lemma memo_counted_init: "memo_counted (init w0)"
  by (simp add: memo_counted_def init_def)

lemma memo_counted_make: "memo_counted s \<Longrightarrow> memo_counted (snd (makeInputSensitiveThrottle c s))"
  by (auto simp: memo_counted_def make_eq)

lemma memo_counted_call: "memo_counted s \<Longrightarrow> memo_counted (snd (wrappedFunction c w args now s))"
  by (simp add: memo_counted_def call_trace)

lemma memo_counted_step: "memo_counted s \<Longrightarrow> memo_counted (step c s a)"
  by (cases a) (simp_all add: memo_counted_make memo_counted_call)

lemma memo_counted_exec: "memo_counted s \<Longrightarrow> memo_counted (exec c acts s)"
  by (induction acts arbitrary: s) (simp_all add: memo_counted_step)

subsection \<open>A closure keeps the arguments it captured\<close>

lemma call_keeps_op:
  assumes "r < length (heap s)"
  shows "r < length (heap (snd (wrappedFunction c w args now s))) \<and>
         wrapped_op (heap (snd (wrappedFunction c w args now s)) ! r) = wrapped_op (heap s ! r)"
proof -
  let ?s1 = "snd (throttleFnsCachedByInput c w args s)"
  let ?s' = "snd (wrappedFunction c w args now s)"
  have a: "r < length (heap ?s1) \<and> wrapped_op (heap ?s1 ! r) = wrapped_op (heap s ! r)"
    using assms
    by (cases "(caches s ! w) (memo_key c args)") (simp_all add: resolve_hit resolve_miss nth_append)
  have m: "map wrapped_op (heap ?s') = map wrapped_op (heap ?s1)"
    by (simp add: wrapped_eq throttled_call_ops)
  have l: "length (heap ?s') = length (heap ?s1)" by (simp add: wrapped_eq)
  have "map wrapped_op (heap ?s') ! r = map wrapped_op (heap ?s1) ! r" using m by simp
  then show ?thesis using a l by simp
qed

lemma step_keeps_op:
  assumes "r < length (heap s)"
  shows "r < length (heap (step c s a)) \<and> wrapped_op (heap (step c s a) ! r) = wrapped_op (heap s ! r)"
  using assms by (cases a) (simp_all add: call_keeps_op make_eq)

lemma exec_keeps_op:
  assumes "r < length (heap s)"
  shows "r < length (heap (exec c acts s)) \<and> wrapped_op (heap (exec c acts s) ! r) = wrapped_op (heap s ! r)"
  using assms
proof (induction acts arbitrary: s)
  case Nil then show ?case by simp
next
  case (Cons a acts)
  then show ?case using step_keeps_op [of r s c a] by simp
qed

lemma call_novel:
  assumes "w < length (caches s)" and "(caches s ! w) (memo_key c args) = None"
  shows "(caches (snd (wrappedFunction c w args now s)) ! w) (memo_key c args) = Some (length (heap s))"
    and "length (heap (snd (wrappedFunction c w args now s))) = Suc (length (heap s))"
    and "wrapped_op (heap (snd (wrappedFunction c w args now s)) ! length (heap s)) = Thunk args"
proof -
  have r: "resolved c w args s = length (heap s)"
    using assms(2) by (simp add: resolved_eq)
  show "(caches (snd (wrappedFunction c w args now s)) ! w) (memo_key c args) = Some (length (heap s))"
    using call_registers [OF assms(1), of c args now] r by simp
  show "length (heap (snd (wrappedFunction c w args now s))) = Suc (length (heap s))"
    using assms(2) by (simp add: call_heap_length)
  have "wrapped_op (heap (snd (throttleFnsCachedByInput c w args s)) ! length (heap s)) = Thunk args"
    using assms(2) by (simp add: resolve_miss)
  moreover have "length (heap s) < length (heap (snd (throttleFnsCachedByInput c w args s)))"
    using assms(2) by (simp add: resolve_miss)
  moreover have "map wrapped_op (heap (snd (wrappedFunction c w args now s))) ! length (heap s)
      = map wrapped_op (heap (snd (throttleFnsCachedByInput c w args s))) ! length (heap s)"
    by (simp add: wrapped_eq throttled_call_ops)
  moreover have "length (heap (snd (wrappedFunction c w args now s)))
      = length (heap (snd (throttleFnsCachedByInput c w args s)))"
    by (simp add: wrapped_eq)
  ultimately show "wrapped_op (heap (snd (wrappedFunction c w args now s)) ! length (heap s)) = Thunk args"
    by simp
qed

text \<open>
  First capture: once a call with a novel key has created the closure, every later call
  whose arguments have that key resolves an instance whose closure still holds the
  arguments of that first call.
\<close>

lemma first_capture:
  assumes "w < length (caches s)" and "(caches s ! w) (memo_key c a) = None"
    and "memo_key c b = memo_key c a"
  shows "captured c w b (exec c acts (snd (wrappedFunction c w a now s))) = a"
proof -
  let ?s1 = "snd (wrappedFunction c w a now s)"
  let ?r = "length (heap s)"
  have reg: "(caches ?s1 ! w) (memo_key c a) = Some ?r" and len: "?r < length (heap ?s1)"
    and op: "wrapped_op (heap ?s1 ! ?r) = Thunk a"
    using call_novel [OF assms(1,2), of now] by simp_all
  have w1: "w < length (caches ?s1)" using assms(1) by simp
  have "(caches (exec c acts ?s1) ! w) (memo_key c b) = Some ?r"
    using exec_keeps_entry [OF w1 reg, of c acts] assms(3) by simp
  then have "instance_for c w b (exec c acts ?s1) = heap (exec c acts ?s1) ! ?r"
    by (rule instance_for_hit)
  then show ?thesis using exec_keeps_op [OF len, of c acts] op by (simp add: captured_def)
qed

subsection \<open>Resolution with frail collaborators\<close>

lemma resolve_f_throws:
  "lookup_throws f args = Some e \<Longrightarrow>
   throttleFnsCachedByInput_f f w args s = (Inl e, s\<lparr>trace := trace s @ [Resolving w args]\<rparr>)"
  by (simp add: throttleFnsCachedByInput_f_def memoized_f_def Let_def)

lemma resolve_f_hit:
  "lookup_throws f args = None \<Longrightarrow> (caches s ! w) (memo_key (base f) args) = Some r \<Longrightarrow>
   throttleFnsCachedByInput_f f w args s = (Inr r, s\<lparr>trace := trace s @ [Resolving w args]\<rparr>)"
  by (simp add: throttleFnsCachedByInput_f_def memoized_f_def Let_def)

lemma resolve_f_fails:
  "lookup_throws f args = None \<Longrightarrow> (caches s ! w) (memo_key (base f) args) = None \<Longrightarrow>
   throttler_throws f (Thunk args) = Some e \<Longrightarrow>
   throttleFnsCachedByInput_f f w args s = (Inl e, s\<lparr>trace := trace s @ [Resolving w args]\<rparr>)"
  by (simp add: throttleFnsCachedByInput_f_def memoized_f_def makeThrottleFnForInput_f_def
      throttler_apply_f_def Let_def)

lemma resolve_f_miss:
  "makes f w args s \<Longrightarrow>
   throttleFnsCachedByInput_f f w args s =
     (Inr (length (heap s)),
      s\<lparr>trace := trace s @ [Resolving w args, ThrottlerCalled w args (length (heap s))],
        heap := heap s @ [\<lparr>wrapped_op = Thunk args, tstate = t_fresh (throttler (base f))\<rparr>],
        caches := (caches s)[w := (evicts f (memo_key (base f) args) (caches s ! w))
                                    (memo_key (base f) args \<mapsto> length (heap s))]\<rparr>)"
  by (simp add: makes_def throttleFnsCachedByInput_f_def memoized_f_def makeThrottleFnForInput_f_def
      throttler_apply_f_def throttler_apply_def Let_def)

lemma resolve_f_cases:
  obtains (throws) e where "lookup_throws f args = Some e"
  | (hit) r where "lookup_throws f args = None" "(caches s ! w) (memo_key (base f) args) = Some r"
  | (fails) e where "lookup_throws f args = None" "(caches s ! w) (memo_key (base f) args) = None"
      "throttler_throws f (Thunk args) = Some e"
  | (miss) "makes f w args s"
  unfolding makes_def
  by (cases "lookup_throws f args"; cases "(caches s ! w) (memo_key (base f) args)";
      cases "throttler_throws f (Thunk args)") auto

lemma resolve_f_out:
  "(fst (throttleFnsCachedByInput_f f w args s) = Inl e) =
     (lookup_throws f args = Some e \<or>
      (lookup_throws f args = None \<and> (caches s ! w) (memo_key (base f) args) = None \<and>
       throttler_throws f (Thunk args) = Some e))"
proof (cases rule: resolve_f_cases [where f = f and args = args and s = s and w = w])
  case (throws e')
  then show ?thesis by (simp add: resolve_f_throws)
next
  case (hit r)
  then show ?thesis by (simp add: resolve_f_hit)
next
  case (fails e')
  then show ?thesis by (simp add: resolve_f_fails)
next
  case miss
  then show ?thesis by (simp add: resolve_f_miss) (simp add: makes_def)
qed

subsection \<open>The throttled call with a frail throttler\<close>

lemma throttled_call_f_out:
  "(fst (throttled_call_f f r now s) = Inl e) =
     (raised_in_call f (heap s ! r) now (world s) = Some e)"
  by (cases "throttled_throws f (tstate (heap s ! r)) now"; cases "wrapped_op (heap s ! r)")
     (auto simp: throttled_call_f_def raised_in_call_def throttled_call_out split: sum.splits)

lemma throttled_call_f_caches [simp]: "caches (snd (throttled_call_f f r now s)) = caches s"
  by (simp add: throttled_call_f_def split: option.splits)

lemma throttled_call_f_heap_length [simp]:
  "length (heap (snd (throttled_call_f f r now s))) = length (heap s)"
  by (simp add: throttled_call_f_def split: option.splits)

lemma throttled_call_f_ops:
  "map wrapped_op (heap (snd (throttled_call_f f r now s))) = map wrapped_op (heap s)"
  by (simp add: throttled_call_f_def throttled_call_ops split: option.splits)

lemma created_append: "created (xs @ ys) = created xs @ created ys"
  by (induction xs rule: created.induct) simp_all

lemma throttled_call_f_created:
  "created (trace (snd (throttled_call_f f r now s))) = created (trace s)"
  by (simp add: throttled_call_f_def throttled_call_trace created_append split: option.splits)

lemma throttled_call_f_runs:
  "factory_runs c w k (trace (snd (throttled_call_f f r now s))) = factory_runs c w k (trace s)"
  by (simp add: throttled_call_f_def throttled_call_trace factory_runs_append split: option.splits)

subsection \<open>What one call changes, with frail collaborators\<close>

lemma call_f_caches:
  "caches (snd (wrappedFunction_f f w args now s)) =
     (if makes f w args s
      then (caches s)[w := (evicts f (memo_key (base f) args) (caches s ! w))
                            (memo_key (base f) args \<mapsto> length (heap s))]
      else caches s)"
proof (cases rule: resolve_f_cases [where f = f and args = args and s = s and w = w])
  case (throws e)
  then show ?thesis by (simp add: wrappedFunction_f_def resolve_f_throws makes_def)
next
  case (hit r)
  then show ?thesis by (simp add: wrappedFunction_f_def resolve_f_hit makes_def)
next
  case (fails e)
  then show ?thesis by (simp add: wrappedFunction_f_def resolve_f_fails makes_def)
next
  case miss
  then show ?thesis by (simp add: wrappedFunction_f_def resolve_f_miss)
qed

lemma call_f_ops:
  "map wrapped_op (heap (snd (wrappedFunction_f f w args now s))) =
     map wrapped_op (heap s) @ (if makes f w args s then [Thunk args] else [])"
proof (cases rule: resolve_f_cases [where f = f and args = args and s = s and w = w])
  case (throws e)
  then show ?thesis by (simp add: wrappedFunction_f_def resolve_f_throws makes_def)
next
  case (hit r)
  then show ?thesis by (simp add: wrappedFunction_f_def resolve_f_hit makes_def throttled_call_f_ops)
next
  case (fails e)
  then show ?thesis by (simp add: wrappedFunction_f_def resolve_f_fails makes_def)
next
  case miss
  then show ?thesis by (simp add: wrappedFunction_f_def resolve_f_miss throttled_call_f_ops)
qed

lemma call_f_heap_length:
  "length (heap (snd (wrappedFunction_f f w args now s))) =
     length (heap s) + (if makes f w args s then 1 else 0)"
  using arg_cong [OF call_f_ops [of f w args now s], of length] by simp

lemma call_f_created:
  "created (trace (snd (wrappedFunction_f f w args now s))) =
     created (trace s) @ (if makes f w args s then [(length (heap s), Thunk args)] else [])"
proof (cases rule: resolve_f_cases [where f = f and args = args and s = s and w = w])
  case (throws e)
  then show ?thesis by (simp add: wrappedFunction_f_def resolve_f_throws makes_def created_append)
next
  case (hit r)
  then show ?thesis
    by (simp add: wrappedFunction_f_def resolve_f_hit makes_def throttled_call_f_created created_append)
next
  case (fails e)
  then show ?thesis by (simp add: wrappedFunction_f_def resolve_f_fails makes_def created_append)
next
  case miss
  then show ?thesis
    by (simp add: wrappedFunction_f_def resolve_f_miss throttled_call_f_created created_append)
qed

lemma call_f_runs:
  "factory_runs c w' k (trace (snd (wrappedFunction_f f w args now s))) =
     factory_runs c w' k (trace s) +
       (if makes f w args s \<and> w' = w \<and> memo_key c args = k then 1 else 0)"
proof (cases rule: resolve_f_cases [where f = f and args = args and s = s and w = w])
  case (throws e)
  then show ?thesis by (simp add: wrappedFunction_f_def resolve_f_throws makes_def factory_runs_append)
next
  case (hit r)
  then show ?thesis
    by (simp add: wrappedFunction_f_def resolve_f_hit makes_def throttled_call_f_runs factory_runs_append)
next
  case (fails e)
  then show ?thesis by (simp add: wrappedFunction_f_def resolve_f_fails makes_def factory_runs_append)
next
  case miss
  then show ?thesis
    by (simp add: wrappedFunction_f_def resolve_f_miss throttled_call_f_runs factory_runs_append)
qed

lemma make_f_eq:
  "makeInputSensitiveThrottle_f f s =
     (case memoizer_throws f of
        Some e \<Rightarrow> (Inl e, s)
      | None \<Rightarrow>
          (Inr (length (caches s)),
           s\<lparr>caches := caches s @ [Map.empty],
             trace := trace s @ [MemoizerCalled (length (caches s))]\<rparr>))"
  by (simp add: makeInputSensitiveThrottle_f_def memoizer_apply_f_def memoizer_apply_def
      split: option.splits)

lemma exec_f_Nil [simp]: "exec_f f [] s = s"
  by (simp add: exec_f_def)

lemma exec_f_Cons [simp]: "exec_f f (a # acts) s = exec_f f acts (step_f f s a)"
  by (simp add: exec_f_def)

subsection \<open>Every factory run is an instance, and every instance a factory run\<close>

lemma tied_init: "tied (init w0)"
  by (simp add: tied_def init_def)

lemma tied_step_f: "tied s \<Longrightarrow> tied (step_f f s a)"
proof (cases a)
  case Make
  then show "tied s \<Longrightarrow> tied (step_f f s a)"
    by (simp add: tied_def make_f_eq created_append split: option.splits)
next
  case (Call w args now)
  then show "tied s \<Longrightarrow> tied (step_f f s a)"
    by (simp add: tied_def call_f_created call_f_ops enumerate_append_eq)
qed

lemma tied_exec_f: "tied s \<Longrightarrow> tied (exec_f f acts s)"
  by (induction acts arbitrary: s) (simp_all add: tied_step_f)

subsection \<open>Counting factory runs with a memoizer that retains\<close>

lemma counted_make_f: "counted c s \<Longrightarrow> counted c (snd (makeInputSensitiveThrottle_f f s))"
  by (auto simp: counted_def make_f_eq factory_runs_append nth_append less_Suc_eq
      split: option.splits)

lemma counted_call_f:
  assumes "counted (base f) s" "w < length (caches s)" "retentive f"
  shows "counted (base f) (snd (wrappedFunction_f f w args now s))"
  unfolding counted_def
proof (intro allI)
  fix w' k
  let ?s' = "snd (wrappedFunction_f f w args now s)"
  have keep: "\<And>k m. evicts f k m = m" using assms(3) by (simp add: retentive_def)
  have mk: "makes f w args s = ((caches s ! w) (memo_key (base f) args) = None)"
    using assms(3) by (simp add: retentive_def makes_def)
  have old: "factory_runs (base f) w' k (trace s) =
        (if w' < length (caches s) then (case (caches s ! w') k of None \<Rightarrow> 0 | Some r \<Rightarrow> 1) else 0)"
    using assms(1) by (simp add: counted_def)
  show "factory_runs (base f) w' k (trace ?s') =
        (if w' < length (caches ?s') then (case (caches ?s' ! w') k of None \<Rightarrow> 0 | Some r \<Rightarrow> 1) else 0)"
    using assms(2) old
    by (cases "w' = w")
       (auto simp: call_f_runs call_f_caches keep mk split: option.splits)
qed

lemma counted_step_f: "counted (base f) s \<Longrightarrow> retentive f \<Longrightarrow> counted (base f) (step_f f s a)"
  by (cases a) (simp_all add: counted_make_f counted_call_f)

lemma counted_exec_f: "counted (base f) s \<Longrightarrow> retentive f \<Longrightarrow> counted (base f) (exec_f f acts s)"
  by (induction acts arbitrary: s) (simp_all add: counted_step_f)

lemma step_f_caches_length: "length (caches s) \<le> length (caches (step_f f s a))"
  by (cases a) (simp_all add: make_f_eq call_f_caches split: option.splits)

lemma exec_f_caches_length: "length (caches s) \<le> length (caches (exec_f f acts s))"
proof (induction acts arbitrary: s)
  case Nil then show ?case by simp
next
  case (Cons a acts)
  have "length (caches s) \<le> length (caches (step_f f s a))" by (rule step_f_caches_length)
  also have "\<dots> \<le> length (caches (exec_f f acts (step_f f s a)))" by (rule Cons.IH)
  finally show ?case by simp
qed

lemma exec_f_cache_called:
  assumes "w < length (caches s)" "retentive f"
  shows "((caches (exec_f f acts s) ! w) k \<noteq> None) =
           ((caches s ! w) k \<noteq> None \<or> key_called (base f) w k acts)"
  using assms(1)
proof (induction acts arbitrary: s)
  case Nil
  then show ?case by (simp add: key_called_def)
next
  case (Cons a acts)
  have keep: "\<And>k m. evicts f k m = m" using assms(2) by (simp add: retentive_def)
  have mk: "\<And>w args s. makes f w args s = ((caches s ! w) (memo_key (base f) args) = None)"
    using assms(2) by (simp add: retentive_def makes_def)
  have len: "w < length (caches (step_f f s a))"
    using Cons.prems step_f_caches_length [of s f a] by simp
  have "((caches (step_f f s a) ! w) k \<noteq> None) =
          ((caches s ! w) k \<noteq> None \<or> key_called (base f) w k [a])"
  proof (cases a)
    case Make
    then show ?thesis using Cons.prems
      by (simp add: make_f_eq nth_append key_called_def split: option.splits)
  next
    case (Call w' args now)
    then show ?thesis using Cons.prems
      by (cases "w' = w") (auto simp: key_called_def call_f_caches keep mk)
  qed
  then show ?case using Cons.IH [OF len] by (auto simp: key_called_def)
qed

subsection \<open>Collaborators that keep to their contract\<close>

text \<open>With \<open>plain\<close> the frail combinator is the combinator of the sections above.\<close>

lemma plain_wrapped:
  "wrappedFunction_f (plain c) w args now s = wrappedFunction c w args now s"
proof -
  have m: "makes (plain c) w args s = ((caches s ! w) (memo_key c args) = None)"
    by (simp add: makes_def plain_def)
  have t: "\<And>r s'. throttled_call_f (plain c) r now s' = throttled_call c r now s'"
    by (simp add: throttled_call_f_def plain_def)
  show ?thesis
  proof (cases "(caches s ! w) (memo_key c args)")
    case None
    then have "makes (plain c) w args s" using m by simp
    then show ?thesis using None
      by (simp add: wrappedFunction_f_def resolve_f_miss t wrapped_eq resolved_def resolve_miss)
         (simp add: plain_def)
  next
    case (Some r)
    then have "throttleFnsCachedByInput_f (plain c) w args s
        = (Inr r, s\<lparr>trace := trace s @ [Resolving w args]\<rparr>)"
      by (intro resolve_f_hit) (simp_all add: plain_def)
    then show ?thesis using Some
      by (simp add: wrappedFunction_f_def t wrapped_eq resolved_def resolve_hit)
  qed
qed

lemma plain_make:
  "makeInputSensitiveThrottle_f (plain c) s =
     (Inr (fst (makeInputSensitiveThrottle c s)), snd (makeInputSensitiveThrottle c s))"
  by (simp add: make_f_eq make_eq plain_def)

lemma plain_step: "step_f (plain c) s a = step c s a"
  by (cases a) (simp_all add: plain_wrapped plain_make)

lemma plain_exec: "exec_f (plain c) acts s = exec c acts s"
  by (induction acts arbitrary: s) (simp_all add: plain_step)

subsection \<open>Counting all memoizer applications\<close>

lemma memoizer_calls_append:
  "memoizer_calls (xs @ ys) = memoizer_calls xs + memoizer_calls ys"
  by (simp add: memoizer_calls_def)

lemma memoizer_calls_simps [simp]:
  "memoizer_calls [] = 0"
  "memoizer_calls (MemoizerCalled n # tr) = Suc (memoizer_calls tr)"
  "memoizer_calls (Resolving w args # tr) = memoizer_calls tr"
  "memoizer_calls (ThrottlerCalled w args r # tr) = memoizer_calls tr"
  "memoizer_calls (Invoking r # tr) = memoizer_calls tr"
  "memoizer_calls (TargetCalled xs # tr) = memoizer_calls tr"
  by (simp_all add: memoizer_calls_def)

lemma call_memoizer_calls:
  "memoizer_calls (trace (snd (wrappedFunction c w args now s))) = memoizer_calls (trace s)"
  by (simp add: call_trace memoizer_calls_append)

lemma step_memoizer_calls:
  "memoizer_calls (trace (step c s a)) = memoizer_calls (trace s) + count_list [a] Make"
  by (cases a) (simp_all add: call_memoizer_calls make_eq memoizer_calls_append)

lemma exec_memoizer_calls:
  "memoizer_calls (trace (exec c acts s)) = memoizer_calls (trace s) + count_list acts Make"
proof (induction acts arbitrary: s)
  case Nil then show ?case by simp
next
  case (Cons a acts)
  show ?case using Cons.IH [of "step c s a"] step_memoizer_calls [of c s a] by simp
qed

section \<open>The claims\<close>

text \<open>
  C1. Two calls with the same memoizer key and different argument values: the target is
  to observe exactly the argument values of the first call. Which call's values are kept
  is as the claim says, by \<open>first_capture\<close>: the closure of the first call is the one
  every later call of that key invokes. But line 75 calls \<^verbatim>\<open>func(args)\<close>, not
  \<^verbatim>\<open>func(...args)\<close>: the target is handed one argument, the array of the first call's
  values, and its parameters never receive the values themselves. Here the wrapped
  function is called with \<open>''m1''\<close> and \<open>1\<close> at time 0 and with \<open>''m1''\<close> and \<open>2\<close> at time
  1000, both calls pass the gate, and both times the target's argument list is the
  one-element list holding the array \<open>[''m1'', 1]\<close>. A target that returns its second
  parameter, the argument that is not part of the key, returns \<open>VUndefined\<close> through
  the wrapper, where a direct call with the first call's values returns \<open>1\<close>.
\<close>

theorem target_receives_array:
  "trace (exec demo [Make, Call 0 [VStr ''m1'', VNum 1] 0, Call 0 [VStr ''m1'', VNum 2] 1000]
            (init 0)) =
     [MemoizerCalled 0,
      Resolving 0 [VStr ''m1'', VNum 1], ThrottlerCalled 0 [VStr ''m1'', VNum 1] 0, Invoking 0,
      TargetCalled [VArr [VStr ''m1'', VNum 1]],
      Resolving 0 [VStr ''m1'', VNum 2], Invoking 0,
      TargetCalled [VArr [VStr ''m1'', VNum 1]]]
   \<and> fst (wrappedFunction demo_second 0 [VStr ''m1'', VNum 1] 0
          (exec demo_second [Make] (init 0))) = Inr VUndefined
   \<and> fst (wrappedFunction demo_second 0 [VStr ''m1'', VNum 2] 1000
          (exec demo_second [Make, Call 0 [VStr ''m1'', VNum 1] 0] (init 0))) = Inr VUndefined
   \<and> fst (pick_second [VStr ''m1'', VNum 1] 0) = Inr (VNum 1)"
  by (simp add: run_defs demo_defs demo_second_def pick_second_def second_param_def)

text \<open>
  C2. A call of the wrapped function returns what the throttled operation it resolved
  returns: when the gate of that instance is open, the outcome of the target for this
  invocation; when the gate is shut, the idle value of the instance. Nothing else is
  ever returned.
\<close>

theorem wrapped_returns:
  "fst (wrappedFunction c w args now s) =
     (if gate_open c w args now s
      then fst (func c [VArr (captured c w args s)] (world s))
      else Inr (t_idle (throttler c) (tstate (instance_for c w args s))))"
  by (simp add: wrapped_eq throttled_call_out gate_open_def captured_def instance_for_eq)

text \<open>
  At time 0 the debounce lets the first call through and the call returns what the target
  returned; a second call at time 50 is suppressed and returns the debounce's stored
  result; with \<open>never_open\<close> the call returns that throttler's \<open>VUndefined\<close>.
\<close>

theorem wrapped_returns_witness:
  "fst (wrappedFunction demo 0 [VStr ''m1''] 0 (exec demo [Make] (init 0)))
     = fst (echo [VArr [VStr ''m1'']] 0)
 \<and> gate_open demo 0 [VStr ''m1''] 0 (exec demo [Make] (init 0))
 \<and> \<not> gate_open demo 0 [VStr ''m1''] 50 (exec demo [Make, Call 0 [VStr ''m1''] 0] (init 0))
 \<and> fst (wrappedFunction demo 0 [VStr ''m1''] 50
         (exec demo [Make, Call 0 [VStr ''m1''] 0] (init 0))) = Inr (VArr [VStr ''m1''])
 \<and> fst (wrappedFunction demo_shut 0 [VStr ''m1''] 0 (exec demo_shut [Make] (init 0)))
     = Inr VUndefined"
  using wrapped_returns [of demo 0 "[VStr ''m1'']" 0 "exec demo [Make] (init 0)"]
    wrapped_returns [of demo 0 "[VStr ''m1'']" 50 "exec demo [Make, Call 0 [VStr ''m1''] 0] (init 0)"]
    wrapped_returns [of demo_shut 0 "[VStr ''m1'']" 0 "exec demo_shut [Make] (init 0)"]
  by (simp add: run_defs demo_defs demo_shut_def never_open_def)

text \<open>
  C3. Two calls of one wrapper whose argument lists are equal for the memoizer resolve
  and invoke the same throttle instance, whatever happens in between. The second call
  resolves the address the first call resolved, and the instance it finds is the heap
  cell at that address, with the timing state the earlier calls left there. Each of the
  two calls is the call of the throttled operation at that one address; the second call
  creates nothing, and its gate decides on the state of that cell.
\<close>

theorem same_key_same_instance:
  assumes "w < length (caches s)" and "memo_key c b = memo_key c a"
  shows "resolved c w b (exec c acts (snd (wrappedFunction c w a now s))) = resolved c w a s
       \<and> instance_for c w b (exec c acts (snd (wrappedFunction c w a now s)))
           = heap (exec c acts (snd (wrappedFunction c w a now s))) ! resolved c w a s
       \<and> wrappedFunction c w a now s
           = throttled_call c (resolved c w a s) now (snd (throttleFnsCachedByInput c w a s))
       \<and> wrappedFunction c w b t (exec c acts (snd (wrappedFunction c w a now s)))
           = throttled_call c (resolved c w a s) t
               (snd (throttleFnsCachedByInput c w b (exec c acts (snd (wrappedFunction c w a now s)))))
       \<and> trace (snd (wrappedFunction c w b t (exec c acts (snd (wrappedFunction c w a now s)))))
           = trace (exec c acts (snd (wrappedFunction c w a now s))) @
               Resolving w b # Invoking (resolved c w a s) #
               (if t_gate (throttler c)
                     (tstate (heap (exec c acts (snd (wrappedFunction c w a now s)))
                                ! resolved c w a s)) t
                then [TargetCalled [VArr (captured c w b
                        (exec c acts (snd (wrappedFunction c w a now s))))]]
                else [])"
proof -
  let ?s1 = "snd (wrappedFunction c w a now s)"
  let ?s2 = "exec c acts ?s1"
  have "w < length (caches ?s1)" using assms(1) by simp
  moreover have "(caches ?s1 ! w) (memo_key c a) = Some (resolved c w a s)"
    using assms(1) by (rule call_registers)
  ultimately have hit: "(caches ?s2 ! w) (memo_key c b) = Some (resolved c w a s)"
    using exec_keeps_entry [of w ?s1 "memo_key c a" "resolved c w a s" c acts] assms(2) by simp
  then have r: "resolved c w b ?s2 = resolved c w a s"
    by (simp add: resolved_eq)
  have i: "instance_for c w b ?s2 = heap ?s2 ! resolved c w a s"
    using hit by (rule instance_for_hit)
  have "trace (snd (wrappedFunction c w b t ?s2)) =
      trace ?s2 @ Resolving w b # Invoking (resolved c w a s) #
        (if t_gate (throttler c) (tstate (heap ?s2 ! resolved c w a s)) t
         then [TargetCalled [VArr (captured c w b ?s2)]] else [])"
    using hit by (simp add: call_trace r gate_open_def i)
  then show ?thesis
    using r i wrapped_eq [of c w a now s] wrapped_eq [of c w b t ?s2] by simp
qed

text \<open>
  Two calls keyed \<open>''m1''\<close> with a call keyed \<open>''other''\<close> in between: both resolve and
  invoke address 0. The second, at time 50, finds the debounce state the first left (last
  call at time 0), is suppressed by it, and leaves its own time in the same cell.
\<close>

theorem same_key_same_instance_witness:
  "(0::nat) < length (caches (exec demo [Make] (init (0::nat))))
 \<and> memo_key demo [VStr ''m1'', VNum 2] = memo_key demo [VStr ''m1'', VNum 1]
 \<and> resolved demo 0 [VStr ''m1'', VNum 1] (exec demo [Make] (init 0)) = 0
 \<and> resolved demo 0 [VStr ''m1'', VNum 2]
       (exec demo [Call 0 [VStr ''other''] 10]
          (snd (wrappedFunction demo 0 [VStr ''m1'', VNum 1] 0 (exec demo [Make] (init 0))))) = 0
 \<and> tstate (instance_for demo 0 [VStr ''m1'', VNum 2]
       (exec demo [Call 0 [VStr ''other''] 10]
          (snd (wrappedFunction demo 0 [VStr ''m1'', VNum 1] 0 (exec demo [Make] (init 0))))))
     = (Some 0, VArr [VStr ''m1'', VNum 1])
 \<and> trace (snd (wrappedFunction demo 0 [VStr ''m1'', VNum 2] 50
       (exec demo [Call 0 [VStr ''other''] 10]
          (snd (wrappedFunction demo 0 [VStr ''m1'', VNum 1] 0 (exec demo [Make] (init 0)))))))
     = [MemoizerCalled 0,
        Resolving 0 [VStr ''m1'', VNum 1], ThrottlerCalled 0 [VStr ''m1'', VNum 1] 0, Invoking 0,
        TargetCalled [VArr [VStr ''m1'', VNum 1]],
        Resolving 0 [VStr ''other''], ThrottlerCalled 0 [VStr ''other''] 1, Invoking 1,
        TargetCalled [VArr [VStr ''other'']],
        Resolving 0 [VStr ''m1'', VNum 2], Invoking 0]
 \<and> tstate (heap (snd (wrappedFunction demo 0 [VStr ''m1'', VNum 2] 50
       (exec demo [Call 0 [VStr ''other''] 10]
          (snd (wrappedFunction demo 0 [VStr ''m1'', VNum 1] 0 (exec demo [Make] (init 0)))))))
       ! 0)
     = (Some 50, VArr [VStr ''m1'', VNum 1])"
proof -
  have h1: "(0::nat) < length (caches (exec demo [Make] (init (0::nat))))"
    by (simp add: run_defs demo_defs)
  have h2: "memo_key demo [VStr ''m1'', VNum 2] = memo_key demo [VStr ''m1'', VNum 1]"
    by (simp add: run_defs demo_defs)
  show ?thesis
    using h1 h2 same_key_same_instance [OF h1 h2, of "[Call 0 [VStr ''other''] 10]" 0 50]
    by (simp add: run_defs demo_defs)
qed

text \<open>
  C4, as amended. The throttler factory returns a new throttle instance only in a call
  whose key the memoizer's registry does not hold, and then exactly one: the heap grows
  by one instance in such a call and not at all in any other. With a memoizer that
  retains every entry, and while neither its lookup nor the throttler factory throws,
  that is once for each key: in every history that follows the construction of wrapper
  \<open>w\<close>, the factory of \<open>w\<close> has made an instance for key \<open>k\<close> exactly once when some
  call of \<open>w\<close> in the history carried that key and not at all otherwise, and the factory
  runs on the trace are the instances on the heap, one for one.
\<close>

theorem factory_once_while_retained:
  "(factory_runs (base f) w k (trace (snd (wrappedFunction_f f w args now s))) =
      factory_runs (base f) w k (trace s) +
        (if makes f w args s \<and> memo_key (base f) args = k then 1 else 0)
    \<and> length (heap (snd (wrappedFunction_f f w args now s))) =
        length (heap s) + (if makes f w args s then 1 else 0))
 \<and> (retentive f \<and> makeInputSensitiveThrottle_f f (exec_f f pre (init w0)) = (Inr w, s1) \<longrightarrow>
      factory_runs (base f) w k (trace (exec_f f acts s1))
        = (if key_called (base f) w k acts then 1 else 0)
    \<and> created (trace (exec_f f acts s1))
        = enumerate 0 (map wrapped_op (heap (exec_f f acts s1))))"
proof -
  have "factory_runs (base f) w k (trace (exec_f f acts s1))
        = (if key_called (base f) w k acts then 1 else 0)
    \<and> created (trace (exec_f f acts s1))
        = enumerate 0 (map wrapped_op (heap (exec_f f acts s1)))"
    if ret: "retentive f"
      and mk: "makeInputSensitiveThrottle_f f (exec_f f pre (init w0)) = (Inr w, s1)"
  proof -
    let ?s0 = "exec_f f pre (init w0)"
    have nothrow: "memoizer_throws f = None"
      using mk by (auto simp: make_f_eq split: option.splits)
    have w: "w = length (caches ?s0)" and s1: "s1 = snd (makeInputSensitiveThrottle_f f ?s0)"
      using mk nothrow by (auto simp: make_f_eq)
    have len: "w < length (caches s1)" and empty: "(caches s1 ! w) k = None"
      by (simp_all add: s1 w make_f_eq nothrow)
    have "counted (base f) ?s0" using ret by (intro counted_exec_f counted_init)
    then have "counted (base f) s1" unfolding s1 by (rule counted_make_f)
    then have cnt: "counted (base f) (exec_f f acts s1)" using ret by (rule counted_exec_f)
    have len': "w < length (caches (exec_f f acts s1))"
      using len exec_f_caches_length [of s1 f acts] by simp
    have "factory_runs (base f) w k (trace (exec_f f acts s1)) =
            (case (caches (exec_f f acts s1) ! w) k of None \<Rightarrow> 0 | Some r \<Rightarrow> 1)"
      using cnt len' by (simp add: counted_def)
    then have a: "factory_runs (base f) w k (trace (exec_f f acts s1))
        = (if key_called (base f) w k acts then 1 else 0)"
      using exec_f_cache_called [OF len ret, of acts k] empty by (auto split: option.splits)
    have "tied ?s0" by (intro tied_exec_f tied_init)
    then have "tied (step_f f ?s0 Make)" by (rule tied_step_f)
    then have "tied s1" by (simp add: s1)
    then have "tied (exec_f f acts s1)" by (rule tied_exec_f)
    then show ?thesis using a by (simp add: tied_def)
  qed
  then show ?thesis by (simp add: call_f_runs call_f_heap_length)
qed

text \<open>
  Calls keyed \<open>''a''\<close>, \<open>''b''\<close>, \<open>''a''\<close> with a memoizer that retains: after the first
  call a further call keyed \<open>''a''\<close> leaves the heap at one instance and a call keyed
  \<open>''b''\<close> makes a second; over the history there is one factory run for \<open>''a''\<close>, none
  for the key \<open>''c''\<close> that was never called, and two instances.
\<close>

theorem factory_once_while_retained_witness:
  "retentive (plain demo)
 \<and> makeInputSensitiveThrottle_f (plain demo) (exec_f (plain demo) [] (init (0::nat)))
     = (Inr 0, exec_f (plain demo) [Make] (init 0))
 \<and> makes (plain demo) 0 [VStr ''b''] (exec_f (plain demo) [Make, Call 0 [VStr ''a''] 0] (init 0))
 \<and> \<not> makes (plain demo) 0 [VStr ''a''] (exec_f (plain demo) [Make, Call 0 [VStr ''a''] 0] (init 0))
 \<and> length (heap (snd (wrappedFunction_f (plain demo) 0 [VStr ''a''] 300
       (exec_f (plain demo) [Make, Call 0 [VStr ''a''] 0] (init 0))))) = 1
 \<and> length (heap (snd (wrappedFunction_f (plain demo) 0 [VStr ''b''] 300
       (exec_f (plain demo) [Make, Call 0 [VStr ''a''] 0] (init 0))))) = 2
 \<and> factory_runs demo 0 (VStr ''a'')
       (trace (exec_f (plain demo)
          [Call 0 [VStr ''a''] 0, Call 0 [VStr ''b''] 1, Call 0 [VStr ''a''] 1000]
          (exec_f (plain demo) [Make] (init 0)))) = 1
 \<and> factory_runs demo 0 (VStr ''c'')
       (trace (exec_f (plain demo)
          [Call 0 [VStr ''a''] 0, Call 0 [VStr ''b''] 1, Call 0 [VStr ''a''] 1000]
          (exec_f (plain demo) [Make] (init 0)))) = 0
 \<and> created (trace (exec_f (plain demo)
          [Call 0 [VStr ''a''] 0, Call 0 [VStr ''b''] 1, Call 0 [VStr ''a''] 1000]
          (exec_f (plain demo) [Make] (init 0))))
     = [(0, Thunk [VStr ''a'']), (1, Thunk [VStr ''b''])]"
proof -
  have h1: "retentive (plain demo)"
    by (simp add: retentive_def plain_def)
  have h2: "makeInputSensitiveThrottle_f (plain demo) (exec_f (plain demo) [] (init (0::nat)))
     = (Inr 0, exec_f (plain demo) [Make] (init 0))"
    by (simp add: run_defs frail_defs)
  show ?thesis
    using h1 h2
      factory_once_while_retained [where f = "plain demo" and w = 0 and k = "VStr ''a''"
        and args = "[VStr ''a'']" and now = 300
        and s = "exec_f (plain demo) [Make, Call 0 [VStr ''a''] 0] (init 0)"
        and pre = "[]" and ?w0.0 = "0::nat" and ?s1.0 = "exec_f (plain demo) [Make] (init 0)"
        and acts = "[Call 0 [VStr ''a''] 0, Call 0 [VStr ''b''] 1, Call 0 [VStr ''a''] 1000]"]
      factory_once_while_retained [where f = "plain demo" and w = 0 and k = "VStr ''c''"
        and args = "[VStr ''b'']" and now = 300
        and s = "exec_f (plain demo) [Make, Call 0 [VStr ''a''] 0] (init 0)"
        and pre = "[]" and ?w0.0 = "0::nat" and ?s1.0 = "exec_f (plain demo) [Make] (init 0)"
        and acts = "[Call 0 [VStr ''a''] 0, Call 0 [VStr ''b''] 1, Call 0 [VStr ''a''] 1000]"]
    by (simp add: run_defs demo_defs frail_defs makes_def key_called_def)
qed

text \<open>
  C4 as it was stated, exactly once for each key and never again for a key seen before,
  fails for a memoizer that evicts. With \<open>capacity_one\<close> the calls keyed \<open>''a''\<close>, \<open>''b''\<close>,
  \<open>''a''\<close> run the factory twice for \<open>''a''\<close>, although the third call carries a key the
  first call carried: three instances are made for two keys.
\<close>

theorem factory_twice_after_eviction:
  "factory_runs demo 0 (VStr ''a'')
     (trace (exec_f (capacity_one demo)
        [Make, Call 0 [VStr ''a''] 0, Call 0 [VStr ''b''] 1, Call 0 [VStr ''a''] 1000] (init 0))) = 2
 \<and> key_called demo 0 (VStr ''a'') [Call 0 [VStr ''a''] 0, Call 0 [VStr ''b''] 1]
 \<and> length (heap (exec_f (capacity_one demo)
        [Make, Call 0 [VStr ''a''] 0, Call 0 [VStr ''b''] 1, Call 0 [VStr ''a''] 1000] (init 0))) = 3"
  by (simp add: run_defs demo_defs frail_defs capacity_one_def key_called_def)



text \<open>
  C6. Errors pass through untouched and the combinator adds none. The closure handed to
  the throttler has the outcome of the target, so whoever invokes it receives the target's
  error as it is. Constructing the combinator fails exactly when the memoizer throws,
  with the memoizer's error. A call of the wrapped function throws \<open>e\<close> exactly when \<open>e\<close>
  is the error that the memoizer, the throttler or the target raises in the course of the
  call: no error of a collaborator or of the target is caught, replaced or swallowed,
  and no error leaves the call that none of them raised. Nothing is validated: resolving
  fails only when the memoizer's lookup or the throttler factory throws, and a throttler
  that returns something that cannot be called is found out only when the call reaches
  line 83.
\<close>

theorem errors_pass_through:
  "fst (call_thunk c (Thunk a) s0) = fst (func c [VArr a] (world s0))
 \<and> ((fst (makeInputSensitiveThrottle_f f s) = Inl e) = (memoizer_throws f = Some e))
 \<and> ((fst (throttleFnsCachedByInput_f f w args s) = Inl e) =
       (lookup_throws f args = Some e \<or>
        (lookup_throws f args = None \<and> (caches s ! w) (memo_key (base f) args) = None \<and>
         throttler_throws f (Thunk args) = Some e)))
 \<and> ((fst (wrappedFunction_f f w args now s) = Inl e) = (raised f w args now s = Some e))"
proof -
  have "(fst (wrappedFunction_f f w args now s) = Inl e) = (raised f w args now s = Some e)"
  proof (cases rule: resolve_f_cases [where f = f and args = args and s = s and w = w])
    case (throws e')
    then show ?thesis by (simp add: wrappedFunction_f_def resolve_f_throws raised_def)
  next
    case (hit r)
    then show ?thesis
      by (simp add: wrappedFunction_f_def resolve_f_hit raised_def throttled_call_f_out)
  next
    case (fails e')
    then show ?thesis by (simp add: wrappedFunction_f_def resolve_f_fails raised_def)
  next
    case miss
    then show ?thesis
      by (simp add: wrappedFunction_f_def resolve_f_miss raised_def throttled_call_f_out)
         (simp add: makes_def)
  qed
  moreover have "(fst (makeInputSensitiveThrottle_f f s) = Inl e) = (memoizer_throws f = Some e)"
    by (auto simp: makeInputSensitiveThrottle_f_def memoizer_apply_f_def split: option.splits prod.splits)
  ultimately show ?thesis using resolve_f_out [of f w args s e] by (simp add: call_thunk_eq)
qed

text \<open>
  A target that throws \<open>''boom''\<close>: the first call throws it, a second call at time 50 is
  suppressed and throws nothing. A memoizer that throws when applied, a lookup that
  throws, a throttler factory that throws and a throttled operation that cannot be
  called: each error leaves the construction or the call as it is; in the last case the
  resolution itself goes through.
\<close>

theorem errors_pass_through_witness:
  "fst (wrappedFunction_f (plain demo_failing) 0 [VStr ''a''] 0
         (exec_f (plain demo_failing) [Make] (init 0))) = Inl (VStr ''boom'')
 \<and> fst (wrappedFunction_f (plain demo_failing) 0 [VStr ''a''] 50
         (exec_f (plain demo_failing) [Make, Call 0 [VStr ''a''] 0] (init 0))) = Inr VUndefined
 \<and> fst (makeInputSensitiveThrottle_f (bad_memoizer demo) (init 0)) = Inl (VStr ''memoizer'')
 \<and> fst (wrappedFunction_f (bad_lookup demo) 0 [VStr ''a''] 0
         (exec_f (bad_lookup demo) [Make] (init 0))) = Inl (VStr ''lookup'')
 \<and> fst (wrappedFunction_f (bad_throttler demo) 0 [VStr ''a''] 0
         (exec_f (bad_throttler demo) [Make] (init 0))) = Inl (VStr ''throttler'')
 \<and> fst (wrappedFunction_f (not_callable demo) 0 [VStr ''a''] 0
         (exec_f (not_callable demo) [Make] (init 0))) = Inl (VStr ''not a function'')
 \<and> fst (throttleFnsCachedByInput_f (not_callable demo) 0 [VStr ''a'']
         (exec_f (not_callable demo) [Make] (init 0))) = Inr 0"
  using
    errors_pass_through [where f = "plain demo_failing" and w = 0 and args = "[VStr ''a'']"
      and now = 0 and s = "exec_f (plain demo_failing) [Make] (init 0)" and e = "VStr ''boom''"
      and c = demo_failing and a = "[VStr ''a'']" and ?s0.0 = "init 0"]
    errors_pass_through [where f = "bad_memoizer demo" and w = 0 and args = "[VStr ''a'']"
      and now = 0 and s = "init 0" and e = "VStr ''memoizer''"
      and c = demo and a = "[VStr ''a'']" and ?s0.0 = "init 0"]
    errors_pass_through [where f = "bad_lookup demo" and w = 0 and args = "[VStr ''a'']"
      and now = 0 and s = "exec_f (bad_lookup demo) [Make] (init 0)" and e = "VStr ''lookup''"
      and c = demo and a = "[VStr ''a'']" and ?s0.0 = "init 0"]
    errors_pass_through [where f = "bad_throttler demo" and w = 0 and args = "[VStr ''a'']"
      and now = 0 and s = "exec_f (bad_throttler demo) [Make] (init 0)" and e = "VStr ''throttler''"
      and c = demo and a = "[VStr ''a'']" and ?s0.0 = "init 0"]
    errors_pass_through [where f = "not_callable demo" and w = 0 and args = "[VStr ''a'']"
      and now = 0 and s = "exec_f (not_callable demo) [Make] (init 0)"
      and e = "VStr ''not a function''" and c = demo and a = "[VStr ''a'']" and ?s0.0 = "init 0"]
  by (simp add: run_defs demo_defs frail_defs demo_failing_def failing_def bad_memoizer_def
      bad_lookup_def bad_throttler_def not_callable_def)



text \<open>
  C8. Two wrappers constructed from the same target, memoizer and throttler share
  nothing. Whatever happens before, between and after the two constructions, the
  wrappers are distinct; a call of one leaves the registry of the other untouched and
  leaves the instance the other resolves for any arguments (its timing state included)
  as it was; and the instance a call of one uses is never the instance the other
  resolves, even for the same arguments.
\<close>

theorem separate_wrappers_independent:
  assumes "makeInputSensitiveThrottle c (exec c pre (init w0)) = (w1, s1)"
      and "makeInputSensitiveThrottle c (exec c mid s1) = (w2, s2)"
      and "s = exec c post s2"
  shows "w1 \<noteq> w2
     \<and> caches (snd (wrappedFunction c w1 a now s)) ! w2 = caches s ! w2
     \<and> instance_for c w2 b (snd (wrappedFunction c w1 a now s)) = instance_for c w2 b s
     \<and> resolved c w2 b (snd (wrappedFunction c w1 a now s)) \<noteq> resolved c w1 a s
     \<and> caches (snd (wrappedFunction c w2 b now s)) ! w1 = caches s ! w1
     \<and> instance_for c w1 a (snd (wrappedFunction c w2 b now s)) = instance_for c w1 a s
     \<and> resolved c w1 a (snd (wrappedFunction c w2 b now s)) \<noteq> resolved c w2 b s"
proof -
  let ?s0 = "exec c pre (init w0)"
  have w1: "w1 = length (caches ?s0)" and s1: "s1 = snd (makeInputSensitiveThrottle c ?s0)"
    using assms(1) by (auto simp: make_eq)
  have w2: "w2 = length (caches (exec c mid s1))"
    and s2: "s2 = snd (makeInputSensitiveThrottle c (exec c mid s1))"
    using assms(2) by (auto simp: make_eq)
  have "sound s1" unfolding s1 by (rule sound_make [OF sound_reach])
  then have "sound s2" unfolding s2 by (intro sound_make sound_exec)
  then have snd: "sound s" unfolding assms(3) by (rule sound_exec)
  have "length (caches s1) = Suc w1" by (simp add: s1 w1 make_eq)
  then have lt: "w1 < w2" using exec_caches_length [of s1 c mid] w2 by simp
  have "length (caches s2) = Suc w2" by (simp add: s2 w2 make_eq)
  then have v2: "w2 < length (caches s)" using exec_caches_length [of s2 c post] assms(3) by simp
  then have v1: "w1 < length (caches s)" using lt by simp
  have ne: "w1 \<noteq> w2" using lt by simp
  have d12: "w2 \<noteq> w1 \<or> memo_key c b \<noteq> memo_key c a" using ne by simp
  have d21: "w1 \<noteq> w2 \<or> memo_key c a \<noteq> memo_key c b" using ne by simp
  show ?thesis
    using ne call_frame(2,3) [OF snd v1 v2 d12, of now] call_frame(2,3) [OF snd v2 v1 d21, of now]
      call_cache_other [of w2 w1 c a now s] call_cache_other [of w1 w2 c b now s]
    by simp
qed

text \<open>
  Wrapper 0 is called with \<open>''a''\<close> at time 0, then wrapper 1 is constructed. A call of
  wrapper 1 with the same \<open>''a''\<close> at time 1 finds its gate open, before and after a
  further call of wrapper 0, although the gate of wrapper 0 for \<open>''a''\<close> is shut.
\<close>

theorem separate_wrappers_independent_witness:
  "makeInputSensitiveThrottle demo (exec demo [] (init (0::nat)))
     = (0, snd (makeInputSensitiveThrottle demo (init 0)))
 \<and> makeInputSensitiveThrottle demo
       (exec demo [Call 0 [VStr ''a''] 0] (snd (makeInputSensitiveThrottle demo (init 0))))
     = (1, exec demo [Make, Call 0 [VStr ''a''] 0, Make] (init 0))
 \<and> \<not> gate_open demo 0 [VStr ''a''] 1 (exec demo [Make, Call 0 [VStr ''a''] 0, Make] (init 0))
 \<and> gate_open demo 1 [VStr ''a''] 1 (exec demo [Make, Call 0 [VStr ''a''] 0, Make] (init 0))
 \<and> gate_open demo 1 [VStr ''a''] 1
       (snd (wrappedFunction demo 0 [VStr ''a''] 1
          (exec demo [Make, Call 0 [VStr ''a''] 0, Make] (init 0))))
 \<and> resolved demo 1 [VStr ''a'']
       (snd (wrappedFunction demo 0 [VStr ''a''] 1
          (exec demo [Make, Call 0 [VStr ''a''] 0, Make] (init 0)))) = 1
 \<and> resolved demo 0 [VStr ''a''] (exec demo [Make, Call 0 [VStr ''a''] 0, Make] (init 0)) = 0"
proof -
  have h1: "makeInputSensitiveThrottle demo (exec demo [] (init (0::nat)))
     = (0, snd (makeInputSensitiveThrottle demo (init 0)))"
    by (simp add: run_defs demo_defs)
  have h2: "makeInputSensitiveThrottle demo
       (exec demo [Call 0 [VStr ''a''] 0] (snd (makeInputSensitiveThrottle demo (init (0::nat)))))
     = (1, exec demo [Make, Call 0 [VStr ''a''] 0, Make] (init 0))"
    by (simp add: run_defs demo_defs)
  have h3: "exec demo [Make, Call 0 [VStr ''a''] 0, Make] (init (0::nat))
     = exec demo [] (exec demo [Make, Call 0 [VStr ''a''] 0, Make] (init 0))"
    by simp
  show ?thesis
    using h1 h2 separate_wrappers_independent [OF h1 h2 h3, of "[VStr ''a'']" 1 "[VStr ''a'']"]
    by (simp add: run_defs demo_defs)
qed

text \<open>
  C9. Constructing the combinator applies the memoizer once, at construction: the only
  event of \<^verbatim>\<open>makeInputSensitiveThrottle\<close> is the application that creates registry \<open>w\<close>,
  and it raises the number of memoizer applications by one. A call of the wrapped
  function applies the memoizer for no registry at all: it leaves that number as it is.
  So in every history the memoizer has been applied once for each construction and never
  else, the application for \<open>w\<close> stays the only one for \<open>w\<close>, and the instance a call
  resolves is the one registry \<open>w\<close> then holds for the key.
\<close>

theorem memoizer_applied_once:
  assumes "makeInputSensitiveThrottle c (exec c pre (init w0)) = (w, s1)"
      and "s = exec c acts s1"
  shows "trace s1 = trace (exec c pre (init w0)) @ [MemoizerCalled w]
       \<and> count_list (trace s) (MemoizerCalled w) = 1
       \<and> count_list (trace (snd (wrappedFunction c w args now s))) (MemoizerCalled w) = 1
       \<and> (caches (snd (wrappedFunction c w args now s)) ! w) (memo_key c args)
            = Some (resolved c w args s)
       \<and> memoizer_calls (trace s1) = Suc (memoizer_calls (trace (exec c pre (init w0))))
       \<and> memoizer_calls (trace (snd (wrappedFunction c w args now s))) = memoizer_calls (trace s)
       \<and> memoizer_calls (trace s) = Suc (count_list pre Make + count_list acts Make)"
proof -
  let ?s0 = "exec c pre (init w0)"
  have w: "w = length (caches ?s0)" and s1: "s1 = snd (makeInputSensitiveThrottle c ?s0)"
    using assms(1) by (auto simp: make_eq)
  have len: "w < length (caches s)"
    using exec_caches_length [of s1 c acts] by (simp add: assms(2) s1 w make_eq)
  have "memo_counted s1" unfolding s1 by (intro memo_counted_make memo_counted_exec memo_counted_init)
  then have m: "memo_counted s" unfolding assms(2) by (rule memo_counted_exec)
  then have m': "memo_counted (snd (wrappedFunction c w args now s))" by (rule memo_counted_call)
  have t1: "trace s1 = trace ?s0 @ [MemoizerCalled w]" by (simp add: s1 w make_eq)
  have c0: "memoizer_calls (trace ?s0) = count_list pre Make"
    using exec_memoizer_calls [of c pre "init w0"] by (simp add: init_def)
  have c1: "memoizer_calls (trace s1) = Suc (memoizer_calls (trace ?s0))"
    by (simp add: t1 memoizer_calls_append)
  have c2: "memoizer_calls (trace s) = Suc (count_list pre Make + count_list acts Make)"
    using exec_memoizer_calls [of c acts s1] c0 c1 by (simp add: assms(2))
  have "count_list (trace s) (MemoizerCalled w) = 1"
    using m len by (simp add: memo_counted_def)
  moreover have "count_list (trace (snd (wrappedFunction c w args now s))) (MemoizerCalled w) = 1"
    using m' len by (simp add: memo_counted_def)
  ultimately show ?thesis
    using t1 c1 c2 call_registers [OF len, of c args now] call_memoizer_calls [of c w args now s]
    by simp
qed

text \<open>The first wrapper of a program, called twice: one application of the memoizer.\<close>

theorem memoizer_applied_once_witness:
  "makeInputSensitiveThrottle demo (exec demo [] (init (0::nat)))
     = (0, snd (makeInputSensitiveThrottle demo (init 0)))
 \<and> trace (snd (makeInputSensitiveThrottle demo (init (0::nat)))) = [MemoizerCalled 0]
 \<and> count_list
       (trace (snd (wrappedFunction demo 0 [VStr ''b''] 5
          (exec demo [Call 0 [VStr ''a''] 0] (snd (makeInputSensitiveThrottle demo (init 0)))))))
       (MemoizerCalled 0) = 1
 \<and> (caches (snd (wrappedFunction demo 0 [VStr ''b''] 5
          (exec demo [Call 0 [VStr ''a''] 0] (snd (makeInputSensitiveThrottle demo (init 0)))))) ! 0)
       (VStr ''b'') = Some 1
 \<and> memoizer_calls (trace (exec demo [Call 0 [VStr ''a''] 0]
          (snd (makeInputSensitiveThrottle demo (init 0))))) = 1
 \<and> memoizer_calls
       (trace (snd (wrappedFunction demo 0 [VStr ''b''] 5
          (exec demo [Call 0 [VStr ''a''] 0] (snd (makeInputSensitiveThrottle demo (init 0)))))))
     = 1"
proof -
  have h: "makeInputSensitiveThrottle demo (exec demo [] (init (0::nat)))
     = (0, snd (makeInputSensitiveThrottle demo (init 0)))"
    by (simp add: run_defs demo_defs)
  show ?thesis
    using h memoizer_applied_once [OF h refl, of "[Call 0 [VStr ''a''] 0]" "[VStr ''b'']" 5]
    by (simp add: run_defs demo_defs)
qed

text \<open>
  C10. A call with a novel key creates the throttle instance and registers it, whatever
  the gate then decides and whatever the target then does: after the call the registry
  holds, under the key, the address of a newly allocated instance whose closure captured
  the arguments of this call.
\<close>

theorem novel_key_registered:
  assumes "w < length (caches s)" and "(caches s ! w) (memo_key c args) = None"
  shows "(caches (snd (wrappedFunction c w args now s)) ! w) (memo_key c args) = Some (length (heap s))
       \<and> length (heap (snd (wrappedFunction c w args now s))) = Suc (length (heap s))
       \<and> wrapped_op (heap (snd (wrappedFunction c w args now s)) ! length (heap s)) = Thunk args"
  using call_novel [OF assms, of now] by simp

text \<open>
  With \<open>never_open\<close> the first call is suppressed, and the instance is registered all the
  same; the next call with the key resolves it.
\<close>

theorem novel_key_registered_witness:
  "(0::nat) < length (caches (exec demo_shut [Make] (init (0::nat))))
 \<and> (caches (exec demo_shut [Make] (init (0::nat))) ! 0) (memo_key demo_shut [VStr ''a'']) = None
 \<and> \<not> gate_open demo_shut 0 [VStr ''a''] 0 (exec demo_shut [Make] (init 0))
 \<and> (caches (snd (wrappedFunction demo_shut 0 [VStr ''a''] 0 (exec demo_shut [Make] (init 0)))) ! 0)
       (VStr ''a'') = Some 0
 \<and> wrapped_op (heap (snd (wrappedFunction demo_shut 0 [VStr ''a''] 0
       (exec demo_shut [Make] (init 0)))) ! 0) = Thunk [VStr ''a'']
 \<and> world (snd (wrappedFunction demo_shut 0 [VStr ''a''] 0 (exec demo_shut [Make] (init 0)))) = 0"
proof -
  have h1: "(0::nat) < length (caches (exec demo_shut [Make] (init (0::nat))))"
    by (simp add: run_defs demo_shut_def never_open_def first_param_def echo_def)
  have h2: "(caches (exec demo_shut [Make] (init (0::nat))) ! 0) (memo_key demo_shut [VStr ''a''])
      = None"
    by (simp add: run_defs demo_shut_def never_open_def first_param_def echo_def)
  show ?thesis
    using h1 h2 novel_key_registered [OF h1 h2, of 0]
    by (simp add: run_defs demo_shut_def never_open_def first_param_def echo_def)
qed

end
